theory Spec2Isabelle
  imports Complex_Main "HOL-Library.Word"
begin

section \<open>The object store\<close>

text \<open>
  The merge functions of \<^verbatim>\<open>src/core/util.ts\<close> work on JavaScript objects, which are
  compared by reference and mutated in place. The embedding therefore keeps an explicit
  store: a list of objects, in which the address of an object is its position.

  A property key is either an integer index (\<open>Idx n\<close>, the key that JavaScript writes as the
  decimal numeral of \<open>n\<close>) or any other name. Every property is an enumerable, writable data
  property; getters, setters, symbols, frozen objects and the properties of the built-in
  prototypes are outside the embedding. Numbers are integers, and an index has no upper
  limit.
\<close>

type_synonym addr = nat

datatype key = Idx nat | Name string

datatype val = Undefined | Null | Bool bool | Num int | Str string | Ref addr

text \<open>
  What \<^verbatim>\<open>Array.isArray\<close> and \<^verbatim>\<open>Object.prototype.toString\<close> tell apart: an array, an
  object whose tag is \<^verbatim>\<open>[object Object]\<close>, and every other object (a date, a function, a
  map).
\<close>

datatype otag = PlainObject | ArrayObject | OtherObject

record obj =
  tag :: otag
  props :: "(key \<times> val) list"
  proto :: "addr option"
  alen :: nat

type_synonym heap = "obj list"

text \<open>
  A call returns (\<open>Done\<close>), throws (\<open>Raise\<close>), or needs a deeper stack of calls than it was
  allowed (\<open>OutOfFuel\<close>). The functions of the module throw nothing themselves; what can
  throw is the reading or writing of a property, with a \<^verbatim>\<open>TypeError\<close>. \<open>Unsupported\<close> marks
  the one operation on the way that the embedding leaves out, the assignment to the length
  of an array.
\<close>

datatype error = TypeError | Unsupported

datatype 'a outcome = OutOfFuel | Raise error | Done 'a

definition empty_object :: obj where
  "empty_object = \<lparr>tag = PlainObject, props = [], proto = None, alen = 0\<rparr>"

definition new_array :: "nat \<Rightarrow> obj" where
  "new_array n = \<lparr>tag = ArrayObject, props = [], proto = None, alen = n\<rparr>"

definition alloc :: "heap \<Rightarrow> obj \<Rightarrow> heap \<times> addr" where
  "alloc h ob = (h @ [ob], length h)"

definition obj_at :: "heap \<Rightarrow> addr \<Rightarrow> obj option" where
  "obj_at h a = (if a < length h then Some (h ! a) else None)"

text \<open>The prototype chain of an object, itself first. It ends at an object without a
  prototype; JavaScript keeps the chains free of cycles, and a chain that came back to one
  of its members would end there. So a chain has at most as many members as the store has
  objects.\<close>

fun proto_chain :: "heap \<Rightarrow> nat \<Rightarrow> addr list \<Rightarrow> addr \<Rightarrow> addr list" where
  "proto_chain h 0 seen a = []"
| "proto_chain h (Suc n) seen a =
     (case obj_at h a of
        None \<Rightarrow> []
      | Some ob \<Rightarrow>
          if a \<in> set seen then []
          else a # (case proto ob of None \<Rightarrow> [] | Some p \<Rightarrow> proto_chain h n (a # seen) p))"

definition chain :: "heap \<Rightarrow> addr \<Rightarrow> addr list" where
  "chain h a = proto_chain h (length h) [] a"

definition own_keys :: "heap \<Rightarrow> addr \<Rightarrow> key list" where
  "own_keys h a = (case obj_at h a of None \<Rightarrow> [] | Some ob \<Rightarrow> map fst (props ob))"

text \<open>Keeps the first occurrence of each key: a property shadowed further up the chain
  is enumerated once, where it is found first.\<close>

fun dedup :: "key list \<Rightarrow> key list" where
  "dedup [] = []"
| "dedup (k # ks) = k # dedup (filter (\<lambda>k'. k' \<noteq> k) ks)"

text \<open>\<^verbatim>\<open>for (let key in source)\<close>: own keys first, then those of the prototype chain.
  A string enumerates its indices; other primitives enumerate nothing. The keys are those
  that the source shows when the loop starts; the values are read as the loop reaches them.\<close>

fun for_in :: "heap \<Rightarrow> val \<Rightarrow> key list" where
  "for_in h (Ref a) = dedup (concat (map (own_keys h) (chain h a)))"
| "for_in h (Str s) = map Idx [0..<length s]"
| "for_in h v = []"

fun lookup_chain :: "heap \<Rightarrow> addr list \<Rightarrow> key \<Rightarrow> val option" where
  "lookup_chain h [] k = None"
| "lookup_chain h (a # as) k =
     (case obj_at h a of
        None \<Rightarrow> lookup_chain h as k
      | Some ob \<Rightarrow>
          (case map_of (props ob) k of
             Some v \<Rightarrow> Some v
           | None \<Rightarrow> lookup_chain h as k))"

text \<open>\<^verbatim>\<open>x[key]\<close> for a value that is not \<^verbatim>\<open>null\<close> or \<^verbatim>\<open>undefined\<close>.\<close>

fun get_prop :: "heap \<Rightarrow> val \<Rightarrow> key \<Rightarrow> val" where
  "get_prop h (Ref a) k =
     (if k = Name ''length'' \<and> map_option tag (obj_at h a) = Some ArrayObject
      then Num (int (alen (h ! a)))
      else (case lookup_chain h (chain h a) k of None \<Rightarrow> Undefined | Some v \<Rightarrow> v))"
| "get_prop h (Str s) (Idx i) = (if i < length s then Str [s ! i] else Undefined)"
| "get_prop h (Str s) (Name n) = (if n = ''length'' then Num (int (length s)) else Undefined)"
| "get_prop h v k = Undefined"

text \<open>\<^verbatim>\<open>x[key]\<close> for any value: reading a property of \<^verbatim>\<open>null\<close> or \<^verbatim>\<open>undefined\<close>
  throws.\<close>

definition read_prop :: "heap \<Rightarrow> val \<Rightarrow> key \<Rightarrow> error + val" where
  "read_prop h x k = (if x = Null \<or> x = Undefined then Inl TypeError else Inr (get_prop h x k))"

text \<open>\<^verbatim>\<open>hasOwnProperty.call(source, key)\<close>.\<close>

fun has_own :: "heap \<Rightarrow> val \<Rightarrow> key \<Rightarrow> bool" where
  "has_own h (Ref a) k =
     (case obj_at h a of
        None \<Rightarrow> False
      | Some ob \<Rightarrow> k \<in> fst ` set (props ob) \<or> (tag ob = ArrayObject \<and> k = Name ''length''))"
| "has_own h (Str s) (Idx i) = (i < length s)"
| "has_own h (Str s) (Name n) = (n = ''length'')"
| "has_own h v k = False"

text \<open>\<^verbatim>\<open>key in array\<close>, as \<^verbatim>\<open>Array.prototype.map\<close> asks for each index.\<close>

definition has_property :: "heap \<Rightarrow> addr \<Rightarrow> key \<Rightarrow> bool" where
  "has_property h a k = (lookup_chain h (chain h a) k \<noteq> None)"

text \<open>Integer keys are enumerated first, in ascending order; names follow in the order
  in which they were created.\<close>

fun insert_new :: "key \<Rightarrow> val \<Rightarrow> (key \<times> val) list \<Rightarrow> (key \<times> val) list" where
  "insert_new (Name n) v ps = ps @ [(Name n, v)]"
| "insert_new (Idx i) v [] = [(Idx i, v)]"
| "insert_new (Idx i) v ((Idx j, w) # ps) =
     (if j < i then (Idx j, w) # insert_new (Idx i) v ps else (Idx i, v) # (Idx j, w) # ps)"
| "insert_new (Idx i) v ((Name n, w) # ps) = (Idx i, v) # (Name n, w) # ps"

definition set_val :: "key \<Rightarrow> val \<Rightarrow> key \<times> val \<Rightarrow> key \<times> val" where
  "set_val k v = (\<lambda>(k', w). if k' = k then (k', v) else (k', w))"

definition upd_prop :: "key \<Rightarrow> val \<Rightarrow> (key \<times> val) list \<Rightarrow> (key \<times> val) list" where
  "upd_prop k v ps = (if k \<in> fst ` set ps then map (set_val k v) ps else insert_new k v ps)"

text \<open>Writing an index of an array may lengthen it. Assigning to the \<^verbatim>\<open>length\<close> of an
  array coerces the value to a number and truncates the array; the coercion is not part of
  the embedding, which reports the assignment as \<open>Unsupported\<close>.\<close>

definition put_obj :: "obj \<Rightarrow> key \<Rightarrow> val \<Rightarrow> error + obj" where
  "put_obj ob k v =
     (if tag ob = ArrayObject then
        (case k of
           Idx i \<Rightarrow> Inr (ob\<lparr>props := upd_prop k v (props ob), alen := max (alen ob) (Suc i)\<rparr>)
         | Name n \<Rightarrow>
             if n = ''length'' then Inl Unsupported
             else Inr (ob\<lparr>props := upd_prop k v (props ob)\<rparr>))
      else Inr (ob\<lparr>props := upd_prop k v (props ob)\<rparr>))"

text \<open>\<^verbatim>\<open>target[key] = value\<close>. The module is strict code, so the assignment throws when
  the target is a primitive value.\<close>

fun put_prop :: "heap \<Rightarrow> val \<Rightarrow> key \<Rightarrow> val \<Rightarrow> error + heap" where
  "put_prop h (Ref a) k v =
     (case obj_at h a of
        None \<Rightarrow> Inl TypeError
      | Some ob \<Rightarrow> (case put_obj ob k v of Inl e \<Rightarrow> Inl e | Inr ob' \<Rightarrow> Inr (h[a := ob'])))"
| "put_prop h x k v = Inl TypeError"

text \<open>The operand test of \<^verbatim>\<open>||\<close>.\<close>

fun truthy :: "val \<Rightarrow> bool" where
  "truthy Undefined = False"
| "truthy Null = False"
| "truthy (Bool b) = b"
| "truthy (Num n) = (n \<noteq> 0)"
| "truthy (Str s) = (s \<noteq> [])"
| "truthy (Ref a) = True"

fun isArray :: "heap \<Rightarrow> val \<Rightarrow> bool" where
  "isArray h (Ref a) = (map_option tag (obj_at h a) = Some ArrayObject)"
| "isArray h v = False"

section \<open>The merge engine\<close>

fun shouldDeepCopyObject :: "heap \<Rightarrow> val \<Rightarrow> bool" where
  "shouldDeepCopyObject h (Ref a) = (map_option tag (obj_at h a) = Some PlainObject)"
| "shouldDeepCopyObject h v = False"

text \<open>
  \<open>copyArray\<close> and \<open>_mixin\<close> call each other; \<open>_mixin\<close> is written \<open>mixin_core\<close> here, a
  name that may not begin with an underscore. The bodies of their loops are written first,
  over the two functions they call (\<open>copy\<close> for \<open>copyArray\<close>, \<open>mix\<close> for a \<open>_mixin\<close> with
  \<open>deep\<close> true, the only kind that is called from inside); the functions themselves follow
  and pass themselves in.

  The list \<open>copied\<close> is one array shared by a call and the calls below it, so it is passed
  in and handed back; \<open>clone\<close> is \<open>copiedClone\<close>, the copy taken when a call starts.
\<close>

type_synonym copy_fn = "heap \<Rightarrow> val \<Rightarrow> bool \<Rightarrow> (heap \<times> val) outcome"

type_synonym mix_fn = "bool \<Rightarrow> heap \<Rightarrow> val list \<Rightarrow> val \<Rightarrow> val list \<Rightarrow> (heap \<times> val list \<times> val) outcome"

text \<open>The function that \<open>copyArray\<close> maps over the items: lines 19 to 32. The target of
  the nested merge is a new empty object, and no \<open>copied\<close> list is passed on.\<close>

definition copy_item :: "copy_fn \<Rightarrow> mix_fn \<Rightarrow> heap \<Rightarrow> bool \<Rightarrow> val \<Rightarrow> (heap \<times> val) outcome" where
  "copy_item copy mix h inherited item =
     (if isArray h item then copy h item inherited
      else if \<not> shouldDeepCopyObject h item then Done (h, item)
      else (let (h1, t) = alloc h empty_object
            in case mix inherited h1 [] (Ref t) [item] of
                 OutOfFuel \<Rightarrow> OutOfFuel
               | Raise e \<Rightarrow> Raise e
               | Done (h2, c, r) \<Rightarrow> Done (h2, r)))"

text \<open>\<^verbatim>\<open>Array.prototype.map\<close>, lines 19 and 32: the result is a new array of the same
  length; the indices below the length are visited in order, and an index that the array
  does not have is left out of the result too.\<close>

fun map_items :: "copy_fn \<Rightarrow> mix_fn \<Rightarrow> heap \<Rightarrow> addr \<Rightarrow> val \<Rightarrow> bool \<Rightarrow> nat list \<Rightarrow> heap outcome" where
  "map_items copy mix h a result inherited [] = Done h"
| "map_items copy mix h a result inherited (i # is) =
     (if has_property h a (Idx i) then
        (case copy_item copy mix h inherited (get_prop h (Ref a) (Idx i)) of
           OutOfFuel \<Rightarrow> OutOfFuel
         | Raise e \<Rightarrow> Raise e
         | Done (h1, v) \<Rightarrow>
             (case put_prop h1 result (Idx i) v of
                Inl e \<Rightarrow> Raise e
              | Inr h2 \<Rightarrow> map_items copy mix h2 a result inherited is))
      else map_items copy mix h a result inherited is)"

definition copyArray_body :: "copy_fn \<Rightarrow> mix_fn \<Rightarrow> heap \<Rightarrow> val \<Rightarrow> bool \<Rightarrow> (heap \<times> val) outcome" where
  "copyArray_body copy mix h array inherited =
     (case array of
        Ref a \<Rightarrow>
          (let len = (case obj_at h a of None \<Rightarrow> 0 | Some ob \<Rightarrow> alen ob);
               (h1, r) = alloc h (new_array len)
           in case map_items copy mix h1 a (Ref r) inherited [0..<len] of
                OutOfFuel \<Rightarrow> OutOfFuel
              | Raise e \<Rightarrow> Raise e
              | Done h2 \<Rightarrow> Done (h2, Ref r))
      | _ \<Rightarrow> Raise TypeError)"

text \<open>The value that line 79 assigns for a key that was not skipped: lines 64 to 78.\<close>

definition merged_value ::
  "copy_fn \<Rightarrow> mix_fn \<Rightarrow> bool \<Rightarrow> bool \<Rightarrow> heap \<Rightarrow> val list \<Rightarrow> val \<Rightarrow> val \<Rightarrow> key \<Rightarrow> val
     \<Rightarrow> (heap \<times> val list \<times> val) outcome" where
  "merged_value copy mix deep inherited h copied target source k v =
     (if deep then
        (if isArray h v then
           (case copy h v inherited of
              OutOfFuel \<Rightarrow> OutOfFuel
            | Raise e \<Rightarrow> Raise e
            | Done (h1, v1) \<Rightarrow> Done (h1, copied, v1))
         else if shouldDeepCopyObject h v then
           (case read_prop h target k of
              Inl e \<Rightarrow> Raise e
            | Inr tv \<Rightarrow>
                (let (h1, targetValue) =
                       (if truthy tv then (h, tv)
                        else (let (h0, t) = alloc h empty_object in (h0, Ref t)))
                 in mix inherited h1 (copied @ [source]) targetValue [v]))
         else Done (h, copied, v))
      else Done (h, copied, v))"

text \<open>The body of the loop over the keys: lines 57 to 80.\<close>

definition mixin_key ::
  "copy_fn \<Rightarrow> mix_fn \<Rightarrow> bool \<Rightarrow> bool \<Rightarrow> val list \<Rightarrow> heap \<Rightarrow> val list \<Rightarrow> val \<Rightarrow> val \<Rightarrow> key
     \<Rightarrow> (heap \<times> val list) outcome" where
  "mixin_key copy mix deep inherited clone h copied target source k =
     (if inherited \<or> has_own h source k then
        (let v = get_prop h source k in
         if v \<in> set clone then Done (h, copied)
         else
           (case merged_value copy mix deep inherited h copied target source k v of
              OutOfFuel \<Rightarrow> OutOfFuel
            | Raise e \<Rightarrow> Raise e
            | Done (h2, copied2, v2) \<Rightarrow>
                (case put_prop h2 target k v2 of
                   Inl e \<Rightarrow> Raise e
                 | Inr h3 \<Rightarrow> Done (h3, copied2))))
      else Done (h, copied))"

fun each_key ::
  "copy_fn \<Rightarrow> mix_fn \<Rightarrow> bool \<Rightarrow> bool \<Rightarrow> val list \<Rightarrow> heap \<Rightarrow> val list \<Rightarrow> val \<Rightarrow> val \<Rightarrow> key list
     \<Rightarrow> (heap \<times> val list) outcome" where
  "each_key copy mix deep inherited clone h copied target source [] = Done (h, copied)"
| "each_key copy mix deep inherited clone h copied target source (k # ks) =
     (case mixin_key copy mix deep inherited clone h copied target source k of
        OutOfFuel \<Rightarrow> OutOfFuel
      | Raise e \<Rightarrow> Raise e
      | Done (h', copied') \<Rightarrow>
          each_key copy mix deep inherited clone h' copied' target source ks)"

text \<open>The loop over the sources: lines 50 to 82, and the return of line 84.\<close>

fun each_source ::
  "copy_fn \<Rightarrow> mix_fn \<Rightarrow> bool \<Rightarrow> bool \<Rightarrow> val list \<Rightarrow> heap \<Rightarrow> val list \<Rightarrow> val \<Rightarrow> val list
     \<Rightarrow> (heap \<times> val list \<times> val) outcome" where
  "each_source copy mix deep inherited clone h copied target [] = Done (h, copied, target)"
| "each_source copy mix deep inherited clone h copied target (source # sources) =
     (if source = Null \<or> source = Undefined then
        each_source copy mix deep inherited clone h copied target sources
      else
        (case each_key copy mix deep inherited clone h copied target source (for_in h source) of
           OutOfFuel \<Rightarrow> OutOfFuel
         | Raise e \<Rightarrow> Raise e
         | Done (h', copied') \<Rightarrow>
             each_source copy mix deep inherited clone h' copied' target sources))"

text \<open>
  The first argument bounds the depth of calls: each call of \<open>copyArray\<close> or \<open>_mixin\<close> uses
  one unit, the loops inside a call use none, and \<open>OutOfFuel\<close> is the answer of a call that
  would go deeper. A call of the source ends, by returning or by throwing, exactly when
  some bound gives an answer other than \<open>OutOfFuel\<close>, and every larger bound then gives
  that same answer (\<open>mixin_core_deeper\<close> below).
\<close>

fun copyArray :: "nat \<Rightarrow> heap \<Rightarrow> val \<Rightarrow> bool \<Rightarrow> (heap \<times> val) outcome"
  and mixin_core :: "nat \<Rightarrow> bool \<Rightarrow> bool \<Rightarrow> heap \<Rightarrow> val list \<Rightarrow> val \<Rightarrow> val list
      \<Rightarrow> (heap \<times> val list \<times> val) outcome"
where
  "copyArray 0 h array inherited = OutOfFuel"
| "copyArray (Suc n) h array inherited =
     copyArray_body (\<lambda>h' a' i'. copyArray n h' a' i') (\<lambda>i' h' c' t' s'. mixin_core n True i' h' c' t' s')
       h array inherited"
| "mixin_core 0 deep inherited h copied target sources = OutOfFuel"
| "mixin_core (Suc n) deep inherited h copied target sources =
     each_source (\<lambda>h' a' i'. copyArray n h' a' i') (\<lambda>i' h' c' t' s'. mixin_core n True i' h' c' t' s')
       deep inherited copied h copied target sources"

text \<open>The three entry points. Each starts without a \<open>copied\<close> list, which \<open>_mixin\<close> then
  creates empty.\<close>

definition finish :: "(heap \<times> val list \<times> val) outcome \<Rightarrow> (heap \<times> val) outcome" where
  "finish r = (case r of OutOfFuel \<Rightarrow> OutOfFuel | Raise e \<Rightarrow> Raise e | Done (h, c, t) \<Rightarrow> Done (h, t))"

definition deepAssign :: "nat \<Rightarrow> heap \<Rightarrow> val \<Rightarrow> val list \<Rightarrow> (heap \<times> val) outcome" where
  "deepAssign n h target sources = finish (mixin_core n True False h [] target sources)"

definition deepMixin :: "nat \<Rightarrow> heap \<Rightarrow> val \<Rightarrow> val list \<Rightarrow> (heap \<times> val) outcome" where
  "deepMixin n h target sources = finish (mixin_core n True True h [] target sources)"

definition mixin :: "nat \<Rightarrow> heap \<Rightarrow> val \<Rightarrow> val list \<Rightarrow> (heap \<times> val) outcome" where
  "mixin n h target sources = finish (mixin_core n False True h [] target sources)"

section \<open>Example stores\<close>

text \<open>Objects are written with the helpers below; the stores are those of the examples in
  the specification. In each, the objects are numbered from 0 in the order listed.\<close>

definition plain :: "(key \<times> val) list \<Rightarrow> addr option \<Rightarrow> obj" where
  "plain ps p = \<lparr>tag = PlainObject, props = ps, proto = p, alen = 0\<rparr>"

definition array_of :: "val list \<Rightarrow> obj" where
  "array_of vs = \<lparr>tag = ArrayObject, props = zip (map Idx [0..<length vs]) vs, proto = None, alen = length vs\<rparr>"

definition other :: "(key \<times> val) list \<Rightarrow> obj" where
  "other ps = \<lparr>tag = OtherObject, props = ps, proto = None, alen = 0\<rparr>"

definition inherit_heap :: heap where
  "inherit_heap = [plain [(Name ''b'', Num 2)] None, plain [(Name ''a'', Num 1)] (Some 0), empty_object]"

definition nested_heap :: heap where
  "nested_heap = [plain [(Name ''y'', Num 1)] None, plain [(Name ''x'', Ref 0)] None, empty_object]"

definition sequence_heap :: heap where
  "sequence_heap = [plain [(Name ''v'', Num 1)] None, array_of [Num 2, Num 3], array_of [Ref 0, Ref 1],
     plain [(Name ''arr'', Ref 2)] None, empty_object]"


definition cyclic_array_heap :: heap where
  "cyclic_array_heap = [array_of [Ref 0], plain [(Name ''x'', Ref 0)] None, empty_object]"

definition self_heap :: heap where
  "self_heap = [plain [(Name ''self'', Ref 0)] None, empty_object]"





section \<open>The identifier\<close>

text \<open>\<^verbatim>\<open>Math.random()\<close> is the sequence of its results: \<open>rnd i\<close> is what call number \<open>i\<close>
  returns, a number from 0 up to but not including 1. The replacement function of \<open>uuid\<close> draws
  once for each \<^verbatim>\<open>x\<close> or \<^verbatim>\<open>y\<close> of the template, from left to right.\<close>

unbundle bit_operations_syntax

text \<open>\<^verbatim>\<open>v.toString(16)\<close>.\<close>

definition hex_digit :: "nat \<Rightarrow> char" where
  "hex_digit n = ''0123456789abcdef'' ! n"

fun digits16 :: "nat \<Rightarrow> string" where
  "digits16 n = (if n < 16 then [hex_digit n] else digits16 (n div 16) @ [hex_digit (n mod 16)])"

declare digits16.simps [simp del]

definition toString16 :: "int \<Rightarrow> string" where
  "toString16 v = (if v < 0 then CHR ''-'' # digits16 (nat (- v)) else digits16 (nat v))"

text \<open>\<^verbatim>\<open>x | 0\<close>: the fraction is dropped and the integer is read as 32 bits with a
  sign.\<close>

definition to_int32 :: "real \<Rightarrow> int" where
  "to_int32 x = sint (word_of_int (if 0 \<le> x then \<lfloor>x\<rfloor> else \<lceil>x\<rceil>) :: 32 word)"

text \<open>The replacement function of lines 249 to 253, for the draw \<open>x\<close> and the matched
  character \<open>c\<close>.\<close>

definition replacement :: "real \<Rightarrow> char \<Rightarrow> string" where
  "replacement x c =
     (let r = to_int32 (x * 16);
          v = (if c = CHR ''x'' then r else (r AND 3) OR 8)
      in toString16 v)"

fun replace_xy :: "(nat \<Rightarrow> real) \<Rightarrow> nat \<Rightarrow> string \<Rightarrow> string" where
  "replace_xy rnd i [] = []"
| "replace_xy rnd i (c # cs) =
     (if c = CHR ''x'' \<or> c = CHR ''y'' then replacement (rnd i) c @ replace_xy rnd (Suc i) cs
      else c # replace_xy rnd i cs)"

definition uuid :: "(nat \<Rightarrow> real) \<Rightarrow> string" where
  "uuid rnd = replace_xy rnd 0 ''xxxxxxxx-xxxx-4xxx-yxxx-xxxxxxxxxxxx''"

text \<open>The digits of the format, and what a draw from 0 up to 1 becomes: a number below
  16 for an \<^verbatim>\<open>x\<close>, one of 8 to 11 for the \<^verbatim>\<open>y\<close>.\<close>

definition is_hex :: "char \<Rightarrow> bool" where
  "is_hex c = (c \<in> set ''0123456789abcdef'')"

definition is_variant :: "char \<Rightarrow> bool" where
  "is_variant c = (c \<in> set ''89ab'')"

definition nibble :: "real \<Rightarrow> nat" where
  "nibble x = nat \<lfloor>x * 16\<rfloor>"

definition variant_nibble :: "real \<Rightarrow> nat" where
  "variant_nibble x = nat ((int (nibble x) AND 3) OR 8)"

section \<open>Structures that share nothing\<close>

text \<open>A value lies within a set of addresses when it is a primitive value or refers to an
  object of the set; an object does when its property values and its prototype do. A set
  is self-contained in a store when its objects exist and lie within it: it is the whole structure
  of whatever refers into it.\<close>

fun val_in :: "addr set \<Rightarrow> val \<Rightarrow> bool" where
  "val_in A (Ref a) = (a \<in> A)"
| "val_in A v = True"

definition obj_in :: "addr set \<Rightarrow> obj \<Rightarrow> bool" where
  "obj_in A ob =
     ((\<forall>v\<in>snd ` set (props ob). val_in A v) \<and> (case proto ob of None \<Rightarrow> True | Some p \<Rightarrow> p \<in> A))"

definition self_contained :: "heap \<Rightarrow> addr set \<Rightarrow> bool" where
  "self_contained h A = (\<forall>a\<in>A. a < length h \<and> obj_in A (h ! a))"

text \<open>The sources' structure \<open>S\<close> and the target's structure \<open>T\<close> share nothing.\<close>

definition separated :: "heap \<Rightarrow> addr set \<Rightarrow> addr set \<Rightarrow> bool" where
  "separated h S T = (self_contained h S \<and> self_contained h T \<and> S \<inter> T = {})"

text \<open>No object of the set is one that the deep merge copies by reference.\<close>

definition no_opaque :: "heap \<Rightarrow> addr set \<Rightarrow> bool" where
  "no_opaque h S = (\<forall>a\<in>S. tag (h ! a) \<noteq> OtherObject)"

text \<open>While a merge runs, the target's side is \<open>T\<close> and every object created since the
  call began. The store \<open>h\<close> is within the frame of the call that began in \<open>h0\<close> when
  everything outside the target's side is as it was, and the target's side refers only to
  itself.\<close>

definition owned :: "heap \<Rightarrow> addr set \<Rightarrow> addr set" where
  "owned h0 T = T \<union> {a. length h0 \<le> a}"

definition frame_inv :: "heap \<Rightarrow> addr set \<Rightarrow> heap \<Rightarrow> bool" where
  "frame_inv h0 T h =
     (length h0 \<le> length h \<and>
      (\<forall>a<length h0. a \<notin> T \<longrightarrow> h ! a = h0 ! a) \<and>
      (\<forall>a\<in>owned h0 T. a < length h \<longrightarrow> obj_in (owned h0 T) (h ! a)))"

definition copy_frames :: "heap \<Rightarrow> addr set \<Rightarrow> addr set \<Rightarrow> copy_fn \<Rightarrow> bool" where
  "copy_frames h0 T S copy =
     (\<forall>h a inherited h' v. copy h (Ref a) inherited = Done (h', v) \<longrightarrow> a \<in> S \<longrightarrow> frame_inv h0 T h
        \<longrightarrow> frame_inv h0 T h' \<and> val_in (owned h0 T) v)"

definition mix_frames :: "heap \<Rightarrow> addr set \<Rightarrow> addr set \<Rightarrow> mix_fn \<Rightarrow> bool" where
  "mix_frames h0 T S mix =
     (\<forall>inherited h c t srcs h' c' r. mix inherited h c t srcs = Done (h', c', r) \<longrightarrow>
        frame_inv h0 T h \<longrightarrow> val_in (owned h0 T) t \<longrightarrow> list_all (val_in S) srcs
        \<longrightarrow> frame_inv h0 T h' \<and> r = t)"



text \<open>What a deep \<open>_mixin\<close> does to the shared list: it appends to it, and what it appends is
  one of its sources or was not in the list before.\<close>

definition mix_grows :: "mix_fn \<Rightarrow> bool" where
  "mix_grows mix =
     (\<forall>inherited h c t srcs h' c' r. mix inherited h c t srcs = Done (h', c', r) \<longrightarrow>
        (\<exists>ext. c' = c @ ext \<and> (\<forall>x\<in>set ext. x \<in> set srcs \<or> x \<notin> set c)))"

section \<open>The depth of a deep merge\<close>

text \<open>Every object of the set is a plain keyed structure.\<close>

definition all_plain :: "heap \<Rightarrow> addr set \<Rightarrow> bool" where
  "all_plain h S = (\<forall>a\<in>S. tag (h ! a) = PlainObject)"

text \<open>The measure of a call whose source is \<open>s\<close> and whose list, as the call starts, holds
  the values \<open>A\<close>: twice the number of source objects that are neither in the list nor \<open>s\<close>
  itself, and one more when \<open>s\<close> is not in the list. A nested call has a smaller measure
  than the call that makes it.\<close>

definition rank :: "addr set \<Rightarrow> val set \<Rightarrow> val \<Rightarrow> nat" where
  "rank S A s = 2 * card (Ref ` S - A - {s}) + (if s \<in> A then 0 else 1)"

definition mix_ends :: "heap \<Rightarrow> addr set \<Rightarrow> addr set \<Rightarrow> nat \<Rightarrow> mix_fn \<Rightarrow> bool" where
  "mix_ends h0 T S n mix =
     (\<forall>inherited h c t v. frame_inv h0 T h \<longrightarrow> val_in (owned h0 T) t \<longrightarrow> val_in S v \<longrightarrow>
        rank S (set c) v < n \<longrightarrow> mix inherited h c t [v] \<noteq> OutOfFuel)"

section \<open>Evaluating the engine on the examples\<close>

lemmas engine_defs = deepAssign_def deepMixin_def mixin_def finish_def mixin_key_def merged_value_def
  copy_item_def copyArray_body_def read_prop_def put_obj_def upd_prop_def set_val_def has_property_def
  chain_def own_keys_def obj_at_def alloc_def empty_object_def new_array_def plain_def array_of_def other_def Let_def

text \<open>Claim C4 (own against inherited keys). The source is object 1, whose own key is
  \<open>a\<close> with value 1 and whose prototype, object 0, contributes \<open>b\<close> with value 2; the target
  is the empty object 2. \<open>deepAssign\<close> leaves the target as \<open>{a: 1}\<close>, \<open>deepMixin\<close> as
  \<open>{a: 1, b: 2}\<close>, whatever depth of calls is allowed.\<close>

theorem own_vs_inherited:
  "deepAssign (Suc n) inherit_heap (Ref 2) [Ref 1] =
     Done (inherit_heap[2 := plain [(Name ''a'', Num 1)] None], Ref 2) \<and>
   deepMixin (Suc n) inherit_heap (Ref 2) [Ref 1] =
     Done (inherit_heap[2 := plain [(Name ''a'', Num 1), (Name ''b'', Num 2)] None], Ref 2)"
  by (simp add: engine_defs inherit_heap_def numeral_3_eq_3)

text \<open>Claim C5 (deep against shallow on a nested structure). The source is object 1,
  \<open>{x: {y: 1}}\<close>, whose \<open>x\<close> is object 0. After the shallow \<open>mixin\<close> the target's \<open>x\<close> is
  object 0 itself, the reference the source holds. After \<open>deepAssign\<close> it is object 3, which
  the store did not have before the call, and object 3 is \<open>{y: 1}\<close>.\<close>

theorem deep_vs_shallow_nested:
  "mixin (Suc n) nested_heap (Ref 2) [Ref 1] =
     Done (nested_heap[2 := plain [(Name ''x'', Ref 0)] None], Ref 2) \<and>
   get_prop nested_heap (Ref 1) (Name ''x'') = Ref 0 \<and>
   deepAssign (Suc (Suc n)) nested_heap (Ref 2) [Ref 1] =
     Done (nested_heap[2 := plain [(Name ''x'', Ref 3)] None] @ [plain [(Name ''y'', Num 1)] None], Ref 2) \<and>
   obj_at nested_heap 3 = None"
  by (simp add: engine_defs nested_heap_def numeral_3_eq_3)

text \<open>Claim C7 (sequence cloning). The source is object 3, \<open>{arr: [{v: 1}, [2, 3]]}\<close>:
  \<open>arr\<close> is object 2, its items are objects 0 and 1. After \<open>deepAssign\<close> the target's
  \<open>arr\<close> is the new array 5, of length 2, whose items are the new object 6, equal to
  \<open>{v: 1}\<close>, and the new array 7, equal to \<open>[2, 3]\<close>; the store had five objects before.\<close>

theorem sequence_cloning:
  "deepAssign (Suc (Suc (Suc n))) sequence_heap (Ref 4) [Ref 3] =
     Done (sequence_heap[4 := plain [(Name ''arr'', Ref 5)] None] @
             [array_of [Ref 6, Ref 7], plain [(Name ''v'', Num 1)] None, array_of [Num 2, Num 3]], Ref 4) \<and>
   length sequence_heap = 5"
  by (simp add: engine_defs sequence_heap_def numeral_3_eq_3 eval_nat_numeral)

section \<open>The format of the identifier\<close>

lemma nibble_less: "0 \<le> x \<Longrightarrow> x < 1 \<Longrightarrow> nibble x < 16"
  unfolding nibble_def by (simp add: floor_less_iff nat_less_iff)

lemma to_int32_draw:
  assumes "0 \<le> x" "x < 1"
  shows "to_int32 (x * 16) = int (nibble x)"
proof -
  have a: "0 \<le> \<lfloor>x * 16\<rfloor>" using assms by simp
  have b: "\<lfloor>x * 16\<rfloor> < 16" using assms by (simp add: floor_less_iff)
  have "sint (word_of_int \<lfloor>x * 16\<rfloor> :: 32 word) = \<lfloor>x * 16\<rfloor>"
    using a b by (simp add: sint_sbintrunc' signed_take_bit_int_eq_self)
  thus ?thesis using assms a by (simp add: to_int32_def nibble_def)
qed


lemma hex_digit_is_hex: "n < 16 \<Longrightarrow> is_hex (hex_digit n)"
proof -
  assume "n < 16"
  then have "n \<in> set [0..<16]" by simp
  then show ?thesis
    unfolding is_hex_def hex_digit_def upt_conv_Cons
    by (simp add: eval_nat_numeral) (elim disjE; simp)
qed

lemma replacement_x:
  assumes "0 \<le> x" "x < 1"
  shows "replacement x CHR ''x'' = [hex_digit (nibble x)]"
  using nibble_less [OF assms]
  by (simp add: replacement_def to_int32_draw [OF assms] toString16_def digits16.simps)

lemma variant_range:
  assumes "n < 16"
  shows "(int n AND 3) OR 8 \<in> {8, 9, 10, 11}"
proof -
  from assms have "n \<in> set [0..<16]" by simp
  then show ?thesis
    unfolding upt_conv_Cons
    by (simp add: eval_nat_numeral) (elim disjE; simp)
qed

lemma replacement_y:
  assumes "0 \<le> x" "x < 1"
  shows "replacement x CHR ''y'' = [hex_digit (variant_nibble x)] \<and> is_variant (hex_digit (variant_nibble x))"
  using variant_range [OF nibble_less [OF assms]]
  by (auto simp add: replacement_def to_int32_draw [OF assms] toString16_def digits16.simps
      variant_nibble_def is_variant_def hex_digit_def Let_def)


lemma uuid_explicit:
  assumes "\<forall>i. 0 \<le> rnd i \<and> rnd i < 1"
  shows "uuid rnd =
    map (\<lambda>i. hex_digit (nibble (rnd i))) [0..<8] @ ''-'' @
    map (\<lambda>i. hex_digit (nibble (rnd i))) [8..<12] @ ''-'' @
    CHR ''4'' # map (\<lambda>i. hex_digit (nibble (rnd i))) [12..<15] @ ''-'' @
    hex_digit (variant_nibble (rnd 15)) # map (\<lambda>i. hex_digit (nibble (rnd i))) [16..<19] @ ''-'' @
    map (\<lambda>i. hex_digit (nibble (rnd i))) [19..<31]"
proof -
  have x: "replacement (rnd i) CHR ''x'' = [hex_digit (nibble (rnd i))]" for i
    using assms by (simp add: replacement_x)
  have y: "replacement (rnd i) CHR ''y'' = [hex_digit (variant_nibble (rnd i))]" for i
    using assms by (simp add: replacement_y)
  show ?thesis
    unfolding uuid_def upt_conv_Cons
    by (simp add: x y eval_nat_numeral)
qed

text \<open>Claim C10, as amended: whatever \<^verbatim>\<open>Math.random()\<close> draws, \<open>uuid\<close> returns eight
  hexadecimal digits, a hyphen, four digits, a hyphen, the digit 4 and three digits, a
  hyphen, one of 8, 9, a, b and three digits (not two), a hyphen, and twelve digits.\<close>

theorem uuid_format:
  assumes "\<forall>i. 0 \<le> rnd i \<and> rnd i < 1"
  shows "\<exists>g1 g2 g3 v g4 g5.
    uuid rnd = g1 @ ''-'' @ g2 @ ''-'' @ CHR ''4'' # g3 @ ''-'' @ v # g4 @ ''-'' @ g5 \<and>
    length g1 = 8 \<and> length g2 = 4 \<and> length g3 = 3 \<and> length g4 = 3 \<and> length g5 = 12 \<and>
    list_all is_hex (g1 @ g2 @ g3 @ g4 @ g5) \<and> is_variant v"
proof -
  have hex: "is_hex (hex_digit (nibble (rnd i)))" for i
    using assms by (simp add: hex_digit_is_hex nibble_less)
  have var: "is_variant (hex_digit (variant_nibble (rnd 15)))"
    using assms by (simp add: replacement_y)
  show ?thesis
    apply (rule exI [of _ "map (\<lambda>i. hex_digit (nibble (rnd i))) [0..<8]"])
    apply (rule exI [of _ "map (\<lambda>i. hex_digit (nibble (rnd i))) [8..<12]"])
    apply (rule exI [of _ "map (\<lambda>i. hex_digit (nibble (rnd i))) [12..<15]"])
    apply (rule exI [of _ "hex_digit (variant_nibble (rnd 15))"])
    apply (rule exI [of _ "map (\<lambda>i. hex_digit (nibble (rnd i))) [16..<19]"])
    apply (rule exI [of _ "map (\<lambda>i. hex_digit (nibble (rnd i))) [19..<31]"])
    using hex var by (simp add: uuid_explicit [OF assms] list_all_iff)
qed

text \<open>The theorem at the draws that are all 0.7.\<close>

theorem uuid_format_witness:
  "(\<forall>i. 0 \<le> (\<lambda>i::nat. 7 / 10 :: real) i \<and> (\<lambda>i::nat. 7 / 10 :: real) i < 1) \<and>
   (\<exists>g1 g2 g3 v g4 g5.
    uuid (\<lambda>i. 7 / 10) = g1 @ ''-'' @ g2 @ ''-'' @ CHR ''4'' # g3 @ ''-'' @ v # g4 @ ''-'' @ g5 \<and>
    length g1 = 8 \<and> length g2 = 4 \<and> length g3 = 3 \<and> length g4 = 3 \<and> length g5 = 12 \<and>
    list_all is_hex (g1 @ g2 @ g3 @ g4 @ g5) \<and> is_variant v)"
  using uuid_format [of "\<lambda>i. 7 / 10"] by simp

lemma uuid_example: "uuid (\<lambda>i. 7 / 10) = ''bbbbbbbb-bbbb-4bbb-bbbb-bbbbbbbbbbbb''"
  by (simp add: uuid_def replacement_def to_int32_def toString16_def digits16.simps hex_digit_def
      sint_sbintrunc' signed_take_bit_int_eq_self)


text \<open>Claim C10 as the specification states it, with two digits after the variant digit,
  fails: such a string has 35 characters, and the identifier has 36.\<close>

theorem uuid_fourth_group_counterexample:
  "\<not> (\<exists>g1 g2 g3 v g4 g5.
    uuid (\<lambda>i. 7 / 10) = g1 @ ''-'' @ g2 @ ''-'' @ CHR ''4'' # g3 @ ''-'' @ v # g4 @ ''-'' @ g5 \<and>
    length g1 = 8 \<and> length g2 = 4 \<and> length g3 = 3 \<and> length g4 = 2 \<and> length g5 = 12 \<and>
    list_all is_hex (g1 @ g2 @ g3 @ g4 @ g5) \<and> is_variant v)"
proof
  assume "\<exists>g1 g2 g3 v g4 g5.
    uuid (\<lambda>i. 7 / 10) = g1 @ ''-'' @ g2 @ ''-'' @ CHR ''4'' # g3 @ ''-'' @ v # g4 @ ''-'' @ g5 \<and>
    length g1 = 8 \<and> length g2 = 4 \<and> length g3 = 3 \<and> length g4 = 2 \<and> length g5 = 12 \<and>
    list_all is_hex (g1 @ g2 @ g3 @ g4 @ g5) \<and> is_variant v"
  then obtain g1 g2 g3 v g4 g5 where
    eq: "uuid (\<lambda>i. 7 / 10) = g1 @ ''-'' @ g2 @ ''-'' @ CHR ''4'' # g3 @ ''-'' @ v # g4 @ ''-'' @ g5"
    and len: "length g1 = 8" "length g2 = 4" "length g3 = 3" "length g4 = 2" "length g5 = 12"
    by blast
  have "length (uuid (\<lambda>i. 7 / 10)) = 35"
    unfolding eq using len by simp
  then show False
    by (simp add: uuid_example)
qed

section \<open>A deeper bound gives the same answer\<close>

text \<open>
  An answer other than \<open>OutOfFuel\<close> does not depend on the bound that produced it: every
  larger bound gives the same store and the same value, or the same error. So a statement
  about one bound that ends is a statement about the call itself.
\<close>

lemma copy_item_deeper:
  assumes c: "\<And>h a i. copy h a i \<noteq> OutOfFuel \<Longrightarrow> copy' h a i = copy h a i"
    and m: "\<And>i h c t s. mix i h c t s \<noteq> OutOfFuel \<Longrightarrow> mix' i h c t s = mix i h c t s"
    and r: "copy_item copy mix h inherited item \<noteq> OutOfFuel"
  shows "copy_item copy' mix' h inherited item = copy_item copy mix h inherited item"
proof (cases "isArray h item")
  case True
  with r c show ?thesis by (simp add: copy_item_def)
next
  case False
  show ?thesis
  proof (cases "shouldDeepCopyObject h item")
    case no: False
    with False show ?thesis by (simp add: copy_item_def)
  next
    case True
    obtain h1 t where a: "alloc h empty_object = (h1, t)" by (cases "alloc h empty_object")
    from r False True a have "mix inherited h1 [] (Ref t) [item] \<noteq> OutOfFuel"
      by (auto simp: copy_item_def split: outcome.splits)
    then have "mix' inherited h1 [] (Ref t) [item] = mix inherited h1 [] (Ref t) [item]" by (rule m)
    with False True a show ?thesis by (simp add: copy_item_def)
  qed
qed

lemma map_items_deeper:
  assumes c: "\<And>h a i. copy h a i \<noteq> OutOfFuel \<Longrightarrow> copy' h a i = copy h a i"
    and m: "\<And>i h c t s. mix i h c t s \<noteq> OutOfFuel \<Longrightarrow> mix' i h c t s = mix i h c t s"
  shows "map_items copy mix h a result inherited is \<noteq> OutOfFuel
    \<Longrightarrow> map_items copy' mix' h a result inherited is = map_items copy mix h a result inherited is"
proof (induction "is" arbitrary: h)
  case Nil
  show ?case by simp
next
  case (Cons i "is")
  show ?case
  proof (cases "has_property h a (Idx i)")
    case False
    with Cons show ?thesis by simp
  next
    case True
    let ?v = "get_prop h (Ref a) (Idx i)"
    from Cons.prems True have ne: "copy_item copy mix h inherited ?v \<noteq> OutOfFuel"
      by (auto split: outcome.splits)
    have eq: "copy_item copy' mix' h inherited ?v = copy_item copy mix h inherited ?v"
      using c m ne by (rule copy_item_deeper)
    show ?thesis
    proof (cases "copy_item copy mix h inherited ?v")
      case OutOfFuel
      with ne show ?thesis by simp
    next
      case (Raise e)
      with True eq show ?thesis by simp
    next
      case (Done p)
      obtain h1 v where p: "p = (h1, v)" by (cases p)
      show ?thesis
      proof (cases "put_prop h1 result (Idx i) v")
        case (Inl e)
        with True eq Done p show ?thesis by simp
      next
        case (Inr h2)
        with Cons.prems True Done p
        have "map_items copy mix h2 a result inherited is \<noteq> OutOfFuel" by simp
        then have "map_items copy' mix' h2 a result inherited is = map_items copy mix h2 a result inherited is"
          by (rule Cons.IH)
        with True eq Done p Inr show ?thesis by simp
      qed
    qed
  qed
qed

lemma copyArray_body_deeper:
  assumes c: "\<And>h a i. copy h a i \<noteq> OutOfFuel \<Longrightarrow> copy' h a i = copy h a i"
    and m: "\<And>i h c t s. mix i h c t s \<noteq> OutOfFuel \<Longrightarrow> mix' i h c t s = mix i h c t s"
    and r: "copyArray_body copy mix h array inherited \<noteq> OutOfFuel"
  shows "copyArray_body copy' mix' h array inherited = copyArray_body copy mix h array inherited"
proof (cases array)
  case (Ref a)
  define len where "len = (case obj_at h a of None \<Rightarrow> 0 | Some ob \<Rightarrow> alen ob)"
  obtain h1 t where a: "alloc h (new_array len) = (h1, t)" by (cases "alloc h (new_array len)")
  from r Ref a have "map_items copy mix h1 a (Ref t) inherited [0..<len] \<noteq> OutOfFuel"
    by (auto simp: copyArray_body_def len_def Let_def split: outcome.splits)
  with c m have "map_items copy' mix' h1 a (Ref t) inherited [0..<len]
      = map_items copy mix h1 a (Ref t) inherited [0..<len]"
    by (rule map_items_deeper)
  with Ref a show ?thesis by (simp add: copyArray_body_def len_def Let_def)
qed (simp_all add: copyArray_body_def)

lemma merged_value_deeper:
  assumes c: "\<And>h a i. copy h a i \<noteq> OutOfFuel \<Longrightarrow> copy' h a i = copy h a i"
    and m: "\<And>i h c t s. mix i h c t s \<noteq> OutOfFuel \<Longrightarrow> mix' i h c t s = mix i h c t s"
    and r: "merged_value copy mix deep inherited h copied target source k v \<noteq> OutOfFuel"
  shows "merged_value copy' mix' deep inherited h copied target source k v
    = merged_value copy mix deep inherited h copied target source k v"
proof (cases "deep \<and> isArray h v")
  case True
  with r have "copy h v inherited \<noteq> OutOfFuel" by (auto simp: merged_value_def split: outcome.splits)
  then have "copy' h v inherited = copy h v inherited" by (rule c)
  with True show ?thesis by (simp add: merged_value_def)
next
  case False
  show ?thesis
  proof (cases "deep \<and> shouldDeepCopyObject h v")
    case no: False
    with False show ?thesis by (auto simp: merged_value_def)
  next
    case True
    show ?thesis
    proof (cases "read_prop h target k")
      case (Inl e)
      with False True show ?thesis by (auto simp: merged_value_def)
    next
      case (Inr tv)
      define p where "p = (if truthy tv then (h, tv)
                        else (let (h0, t) = alloc h empty_object in (h0, Ref t)))"
      obtain h1 targetValue where p: "p = (h1, targetValue)" by (cases p)
      from r False True Inr p have "mix inherited h1 (copied @ [source]) targetValue [v] \<noteq> OutOfFuel"
        by (auto simp: merged_value_def p_def Let_def)
      then have "mix' inherited h1 (copied @ [source]) targetValue [v]
        = mix inherited h1 (copied @ [source]) targetValue [v]" by (rule m)
      with False True Inr p show ?thesis by (auto simp: merged_value_def p_def Let_def)
    qed
  qed
qed

lemma mixin_key_deeper:
  assumes c: "\<And>h a i. copy h a i \<noteq> OutOfFuel \<Longrightarrow> copy' h a i = copy h a i"
    and m: "\<And>i h c t s. mix i h c t s \<noteq> OutOfFuel \<Longrightarrow> mix' i h c t s = mix i h c t s"
    and r: "mixin_key copy mix deep inherited clone h copied target source k \<noteq> OutOfFuel"
  shows "mixin_key copy' mix' deep inherited clone h copied target source k
    = mixin_key copy mix deep inherited clone h copied target source k"
proof (cases "(inherited \<or> has_own h source k) \<and> get_prop h source k \<notin> set clone")
  case False
  then show ?thesis by (auto simp: mixin_key_def Let_def)
next
  case True
  let ?v = "get_prop h source k"
  from r True have "merged_value copy mix deep inherited h copied target source k ?v \<noteq> OutOfFuel"
    by (auto simp: mixin_key_def Let_def split: outcome.splits)
  with c m have "merged_value copy' mix' deep inherited h copied target source k ?v
    = merged_value copy mix deep inherited h copied target source k ?v"
    by (rule merged_value_deeper)
  with True show ?thesis by (auto simp: mixin_key_def Let_def)
qed

lemma each_key_deeper:
  assumes c: "\<And>h a i. copy h a i \<noteq> OutOfFuel \<Longrightarrow> copy' h a i = copy h a i"
    and m: "\<And>i h c t s. mix i h c t s \<noteq> OutOfFuel \<Longrightarrow> mix' i h c t s = mix i h c t s"
  shows "each_key copy mix deep inherited clone h copied target source ks \<noteq> OutOfFuel
    \<Longrightarrow> each_key copy' mix' deep inherited clone h copied target source ks
      = each_key copy mix deep inherited clone h copied target source ks"
proof (induction ks arbitrary: h copied)
  case Nil
  show ?case by simp
next
  case (Cons k ks)
  from Cons.prems have ne: "mixin_key copy mix deep inherited clone h copied target source k \<noteq> OutOfFuel"
    by (auto split: outcome.splits)
  have eq: "mixin_key copy' mix' deep inherited clone h copied target source k
    = mixin_key copy mix deep inherited clone h copied target source k"
    using c m ne by (rule mixin_key_deeper)
  show ?case
  proof (cases "mixin_key copy mix deep inherited clone h copied target source k")
    case OutOfFuel
    with ne show ?thesis by simp
  next
    case (Raise e)
    with eq show ?thesis by simp
  next
    case (Done p)
    obtain h1 c1 where p: "p = (h1, c1)" by (cases p)
    from Cons.prems Done p
    have "each_key copy mix deep inherited clone h1 c1 target source ks \<noteq> OutOfFuel" by simp
    then have "each_key copy' mix' deep inherited clone h1 c1 target source ks
      = each_key copy mix deep inherited clone h1 c1 target source ks" by (rule Cons.IH)
    with eq Done p show ?thesis by simp
  qed
qed

lemma each_source_deeper:
  assumes c: "\<And>h a i. copy h a i \<noteq> OutOfFuel \<Longrightarrow> copy' h a i = copy h a i"
    and m: "\<And>i h c t s. mix i h c t s \<noteq> OutOfFuel \<Longrightarrow> mix' i h c t s = mix i h c t s"
  shows "each_source copy mix deep inherited clone h copied target sources \<noteq> OutOfFuel
    \<Longrightarrow> each_source copy' mix' deep inherited clone h copied target sources
      = each_source copy mix deep inherited clone h copied target sources"
proof (induction sources arbitrary: h copied)
  case Nil
  show ?case by simp
next
  case (Cons source sources)
  show ?case
  proof (cases "source = Null \<or> source = Undefined")
    case True
    with Cons show ?thesis by simp
  next
    case False
    let ?ks = "for_in h source"
    from Cons.prems False
    have ne: "each_key copy mix deep inherited clone h copied target source ?ks \<noteq> OutOfFuel"
      by (auto split: outcome.splits)
    have eq: "each_key copy' mix' deep inherited clone h copied target source ?ks
      = each_key copy mix deep inherited clone h copied target source ?ks"
      using c m ne by (rule each_key_deeper)
    show ?thesis
    proof (cases "each_key copy mix deep inherited clone h copied target source ?ks")
      case OutOfFuel
      with ne show ?thesis by simp
    next
      case (Raise e)
      with False eq show ?thesis by simp
    next
      case (Done p)
      obtain h1 c1 where p: "p = (h1, c1)" by (cases p)
      from Cons.prems False Done p
      have "each_source copy mix deep inherited clone h1 c1 target sources \<noteq> OutOfFuel" by simp
      then have "each_source copy' mix' deep inherited clone h1 c1 target sources
        = each_source copy mix deep inherited clone h1 c1 target sources" by (rule Cons.IH)
      with False eq Done p show ?thesis by simp
    qed
  qed
qed

lemma engine_deeper:
  "(\<forall>h a i. copyArray n h a i \<noteq> OutOfFuel \<longrightarrow> copyArray (Suc n) h a i = copyArray n h a i) \<and>
   (\<forall>d i h c t s. mixin_core n d i h c t s \<noteq> OutOfFuel
      \<longrightarrow> mixin_core (Suc n) d i h c t s = mixin_core n d i h c t s)"
proof (induction n)
  case 0
  show ?case by simp
next
  case (Suc n)
  define c0 where "c0 = (\<lambda>h a i. copyArray n h a i)"
  define c1 where "c1 = (\<lambda>h a i. copyArray (Suc n) h a i)"
  define m0 where "m0 = (\<lambda>i h c t s. mixin_core n True i h c t s)"
  define m1 where "m1 = (\<lambda>i h c t s. mixin_core (Suc n) True i h c t s)"
  have c: "\<And>h a i. c0 h a i \<noteq> OutOfFuel \<Longrightarrow> c1 h a i = c0 h a i"
    unfolding c0_def c1_def using Suc by blast
  have m: "\<And>i h c t s. m0 i h c t s \<noteq> OutOfFuel \<Longrightarrow> m1 i h c t s = m0 i h c t s"
    unfolding m0_def m1_def using Suc by blast
  have cs: "\<And>h a i. copyArray (Suc n) h a i = copyArray_body c0 m0 h a i"
    "\<And>h a i. copyArray (Suc (Suc n)) h a i = copyArray_body c1 m1 h a i"
    unfolding c0_def c1_def m0_def m1_def by (rule copyArray.simps)+
  have ms: "\<And>d i h c t s. mixin_core (Suc n) d i h c t s = each_source c0 m0 d i c h c t s"
    "\<And>d i h c t s. mixin_core (Suc (Suc n)) d i h c t s = each_source c1 m1 d i c h c t s"
    unfolding c0_def c1_def m0_def m1_def by (rule mixin_core.simps)+
  show ?case
  proof (intro conjI allI impI)
    fix h a i
    assume "copyArray (Suc n) h a i \<noteq> OutOfFuel"
    then have ne: "copyArray_body c0 m0 h a i \<noteq> OutOfFuel" by (simp only: cs simp_thms)
    have "copyArray_body c1 m1 h a i = copyArray_body c0 m0 h a i"
      using c m ne by (rule copyArray_body_deeper)
    then show "copyArray (Suc (Suc n)) h a i = copyArray (Suc n) h a i" by (simp only: cs simp_thms)
  next
    fix d i h cl t s
    assume "mixin_core (Suc n) d i h cl t s \<noteq> OutOfFuel"
    then have ne: "each_source c0 m0 d i cl h cl t s \<noteq> OutOfFuel" by (simp only: ms simp_thms)
    have "each_source c1 m1 d i cl h cl t s = each_source c0 m0 d i cl h cl t s"
      using c m ne by (rule each_source_deeper)
    then show "mixin_core (Suc (Suc n)) d i h cl t s = mixin_core (Suc n) d i h cl t s"
      by (simp only: ms simp_thms)
  qed
qed

lemma copyArray_deeper:
  "copyArray n h a i \<noteq> OutOfFuel \<Longrightarrow> copyArray (n + m) h a i = copyArray n h a i"
proof (induction m)
  case 0
  show ?case by simp
next
  case (Suc m)
  then have "copyArray (n + m) h a i \<noteq> OutOfFuel" by simp
  with engine_deeper [of "n + m"] Suc show ?case by simp
qed

lemma mixin_core_deeper:
  "mixin_core n d i h c t s \<noteq> OutOfFuel \<Longrightarrow> mixin_core (n + m) d i h c t s = mixin_core n d i h c t s"
proof (induction m)
  case 0
  show ?case by simp
next
  case (Suc m)
  then have "mixin_core (n + m) d i h c t s \<noteq> OutOfFuel" by simp
  with engine_deeper [of "n + m"] Suc show ?case by simp
qed

lemma entry_points_deeper:
  "deepAssign n h t s \<noteq> OutOfFuel \<Longrightarrow> deepAssign (n + m) h t s = deepAssign n h t s"
  "deepMixin n h t s \<noteq> OutOfFuel \<Longrightarrow> deepMixin (n + m) h t s = deepMixin n h t s"
  "mixin n h t s \<noteq> OutOfFuel \<Longrightarrow> mixin (n + m) h t s = mixin n h t s"
proof -
  have f: "\<And>r. finish r \<noteq> OutOfFuel \<Longrightarrow> r \<noteq> OutOfFuel" by (auto simp: finish_def)
  show "deepAssign n h t s \<noteq> OutOfFuel \<Longrightarrow> deepAssign (n + m) h t s = deepAssign n h t s"
    unfolding deepAssign_def by (drule f) (simp add: mixin_core_deeper)
  show "deepMixin n h t s \<noteq> OutOfFuel \<Longrightarrow> deepMixin (n + m) h t s = deepMixin n h t s"
    unfolding deepMixin_def by (drule f) (simp add: mixin_core_deeper)
  show "mixin n h t s \<noteq> OutOfFuel \<Longrightarrow> mixin (n + m) h t s = mixin n h t s"
    unfolding mixin_def by (drule f) (simp add: mixin_core_deeper)
qed

section \<open>Properties of the store\<close>

subsection \<open>Writing a property\<close>

lemma put_prop_Inr:
  assumes "put_prop h x k v = Inr h1"
  obtains t ob' where "x = Ref t" "t < length h" "put_obj (h ! t) k v = Inr ob'" "h1 = h[t := ob']"
  using assms by (cases x) (auto simp: obj_at_def split: if_splits sum.splits)

lemma put_obj_Inr:
  assumes "put_obj ob k v = Inr ob'"
  shows "tag ob' = tag ob" "proto ob' = proto ob" "props ob' = upd_prop k v (props ob)"
    "alen ob \<le> alen ob'" "tag ob = ArrayObject \<Longrightarrow> k \<noteq> Name ''length''"
    "tag ob \<noteq> ArrayObject \<Longrightarrow> alen ob' = alen ob"
  using assms by (auto simp: put_obj_def split: if_splits key.splits)

lemma keys_insert_new: "fst ` set (insert_new k v ps) = insert k (fst ` set ps)"
  by (induction k v ps rule: insert_new.induct) auto

lemma map_of_insert_new:
  "k \<notin> fst ` set ps \<Longrightarrow> map_of (insert_new k v ps) k' = (if k' = k then Some v else map_of ps k')"
proof (induction k v ps rule: insert_new.induct)
  case (1 n v ps)
  then have "map_of ps (Name n) = None" by (simp add: map_of_eq_None_iff)
  then show ?case by (simp add: map_add_def split: option.splits)
qed auto

lemma fst_set_val [simp]: "fst (set_val k v p) = fst p"
  by (cases p) (simp add: set_val_def)

lemma keys_map_set_val: "fst ` set_val k v ` set ps = fst ` set ps"
  by (simp add: image_image)

lemma map_of_map_set_val:
  "map_of (map (set_val k v) ps) k' =
     (if k' = k then (if k \<in> fst ` set ps then Some v else None) else map_of ps k')"
  by (induction ps) (force simp: set_val_def)+

lemma keys_upd_prop: "fst ` set (upd_prop k v ps) = insert k (fst ` set ps)"
  by (simp add: upd_prop_def keys_insert_new keys_map_set_val insert_absorb)

lemma map_of_upd_prop: "map_of (upd_prop k v ps) k' = (if k' = k then Some v else map_of ps k')"
  by (simp add: upd_prop_def map_of_map_set_val map_of_insert_new)

lemma set_val_idem [simp]: "set_val k v (set_val k v p) = set_val k v p"
  by (cases p) (simp add: set_val_def)

lemma set_val_commute: "k \<noteq> k' \<Longrightarrow> set_val k v (set_val k' v' p) = set_val k' v' (set_val k v p)"
  by (cases p) (simp add: set_val_def)

lemma set_val_insert_new:
  "k \<noteq> k' \<Longrightarrow> map (set_val k v) (insert_new k' v' ps) = insert_new k' v' (map (set_val k v) ps)"
  by (induction k' v' ps rule: insert_new.induct) (auto simp: set_val_def)

lemma set_val_absent: "k \<notin> fst ` set ps \<Longrightarrow> map (set_val k v) ps = ps"
  by (induction ps) (auto simp: set_val_def)

lemma set_val_insert_new_same:
  "k \<notin> fst ` set ps \<Longrightarrow> map (set_val k v) (insert_new k v ps) = insert_new k v ps"
proof (induction k v ps rule: insert_new.induct)
  case (1 n v ps)
  then show ?case by (simp add: set_val_absent) (simp add: set_val_def)
next
  case (3 i v j w ps)
  then have "map (set_val (Idx i) v) ps = ps" by (simp add: set_val_absent)
  with 3 show ?case by (auto simp: set_val_def)
next
  case (4 i v n w ps)
  then have "map (set_val (Idx i) v) ps = ps" by (simp add: set_val_absent)
  with 4 show ?case by (auto simp: set_val_def)
qed (simp add: set_val_def)

lemma upd_prop_idem: "upd_prop k v (upd_prop k v ps) = upd_prop k v ps"
proof -
  have in_keys: "k \<in> fst ` set (upd_prop k v ps)" by (simp add: keys_upd_prop)
  show ?thesis
  proof (cases "k \<in> fst ` set ps")
    case True
    then show ?thesis using in_keys by (simp add: upd_prop_def)
  next
    case False
    then show ?thesis using in_keys by (simp add: upd_prop_def set_val_insert_new_same)
  qed
qed

lemma upd_prop_fixed_keys: "upd_prop k v ps = ps \<Longrightarrow> k \<in> fst ` set ps"
  using keys_upd_prop [of k v ps] by auto

lemma upd_prop_fixed_other:
  assumes "upd_prop k v ps = ps" "k \<noteq> k'"
  shows "upd_prop k v (upd_prop k' v' ps) = upd_prop k' v' ps"
proof -
  have kin: "k \<in> fst ` set ps" using assms(1) by (rule upd_prop_fixed_keys)
  then have stay: "map (set_val k v) ps = ps" using assms(1) by (simp add: upd_prop_def)
  have kin': "k \<in> fst ` set (upd_prop k' v' ps)" using kin by (simp add: keys_upd_prop)
  show ?thesis
  proof (cases "k' \<in> fst ` set ps")
    case True
    have "map (set_val k v) (map (set_val k' v') ps) = map (set_val k' v') (map (set_val k v) ps)"
      using assms(2) by (simp add: set_val_commute)
    then show ?thesis using True kin' stay by (simp add: upd_prop_def)
  next
    case False
    then show ?thesis using kin' stay assms(2) by (simp add: upd_prop_def set_val_insert_new)
  qed
qed

lemma put_obj_idem: "put_obj ob k v = Inr ob' \<Longrightarrow> put_obj ob' k v = Inr ob'"
  by (auto simp: put_obj_def upd_prop_idem split: if_splits key.splits)

lemma put_obj_fixed_alen:
  assumes "put_obj ob (Idx i) v = Inr ob" "tag ob = ArrayObject"
  shows "Suc i \<le> alen ob"
proof -
  have "alen (ob\<lparr>props := upd_prop (Idx i) v (props ob), alen := max (alen ob) (Suc i)\<rparr>) = alen ob"
    using assms by (simp add: put_obj_def)
  then show ?thesis by simp
qed

lemma put_obj_fixed_other:
  assumes "put_obj ob k v = Inr ob" "k \<noteq> k'" "put_obj ob k' v' = Inr ob'"
  shows "put_obj ob' k v = Inr ob'"
proof -
  have p: "upd_prop k v (props ob) = props ob"
    using put_obj_Inr(3) [OF assms(1)] by simp
  have q: "upd_prop k v (upd_prop k' v' (props ob)) = upd_prop k' v' (props ob)"
    using p assms(2) by (rule upd_prop_fixed_other)
  have a: "tag ob = ArrayObject \<Longrightarrow> k = Idx i \<Longrightarrow> Suc i \<le> alen ob" for i
    using assms(1) put_obj_fixed_alen by blast
  show ?thesis
    using assms q a
    by (auto simp: put_obj_def max_def split: if_splits key.splits)
qed

subsection \<open>Reading after writing\<close>

lemma obj_at_update: "obj_at (h[t := ob]) a = (if a = t \<and> t < length h then Some ob else obj_at h a)"
  by (simp add: obj_at_def)

lemma proto_chain_cong:
  assumes "\<And>a. map_option proto (obj_at h1 a) = map_option proto (obj_at h a)"
  shows "proto_chain h1 n seen a = proto_chain h n seen a"
proof (induction n arbitrary: a seen)
  case 0
  show ?case by simp
next
  case (Suc n)
  show ?case
    using assms [of a] Suc.IH
    by (cases "obj_at h a"; cases "obj_at h1 a") (auto split: option.splits)
qed

lemma put_prop_proto:
  assumes "put_prop h x k v = Inr h1"
  shows "map_option proto (obj_at h1 a) = map_option proto (obj_at h a)"
    and "map_option tag (obj_at h1 a) = map_option tag (obj_at h a)"
    and "length h1 = length h"
proof -
  from assms obtain t ob' where *: "x = Ref t" "t < length h" "put_obj (h ! t) k v = Inr ob'" "h1 = h[t := ob']"
    by (rule put_prop_Inr)
  show "map_option proto (obj_at h1 a) = map_option proto (obj_at h a)"
    using * put_obj_Inr(2) [OF *(3)] by (cases "a = t") (auto simp: obj_at_def)
  show "map_option tag (obj_at h1 a) = map_option tag (obj_at h a)"
    using * put_obj_Inr(1) [OF *(3)] by (cases "a = t") (auto simp: obj_at_def)
  show "length h1 = length h" using * by simp
qed

lemma put_prop_chain:
  assumes "put_prop h x k v = Inr h1"
  shows "chain h1 a = chain h a"
  unfolding chain_def put_prop_proto(3) [OF assms]
  by (rule proto_chain_cong) (rule put_prop_proto(1) [OF assms])

lemma lookup_chain_other:
  assumes "put_prop h x k' v' = Inr h1" "k \<noteq> k'"
  shows "lookup_chain h1 as k = lookup_chain h as k"
proof -
  from assms obtain t ob' where *: "x = Ref t" "t < length h" "put_obj (h ! t) k' v' = Inr ob'" "h1 = h[t := ob']"
    by (auto elim: put_prop_Inr)
  have own: "map_of (props ob') k = map_of (props (h ! t)) k"
    using put_obj_Inr(3) [OF *(3)] assms(2) by (simp add: map_of_upd_prop)
  show ?thesis
  proof (induction as)
    case Nil
    show ?case by simp
  next
    case (Cons a as)
    show ?case
      using Cons.IH own * by (cases "a = t") (auto simp: obj_at_def split: option.splits)
  qed
qed

lemma lookup_chain_same:
  assumes "put_prop h x k v = Inr h1"
  shows "lookup_chain h1 as k = lookup_chain h as k \<or> lookup_chain h1 as k = Some v"
proof -
  from assms obtain t ob' where *: "x = Ref t" "t < length h" "put_obj (h ! t) k v = Inr ob'" "h1 = h[t := ob']"
    by (auto elim: put_prop_Inr)
  have own: "map_of (props ob') k = Some v"
    using put_obj_Inr(3) [OF *(3)] by (simp add: map_of_upd_prop)
  show ?thesis
  proof (induction as)
    case Nil
    show ?case by simp
  next
    case (Cons a as)
    show ?case
      using Cons.IH own * by (cases "a = t") (auto simp: obj_at_def split: option.splits)
  qed
qed

lemma get_prop_other:
  assumes "put_prop h x k' v' = Inr h1" "k \<noteq> k'" "k = Name ''length'' \<Longrightarrow> \<not> isArray h x"
  shows "get_prop h1 y k = get_prop h y k"
proof (cases y)
  case (Ref a)
  from assms obtain t ob' where *: "x = Ref t" "t < length h" "put_obj (h ! t) k' v' = Inr ob'" "h1 = h[t := ob']"
    by (auto elim: put_prop_Inr)
  have tg: "map_option tag (obj_at h1 a) = map_option tag (obj_at h a)"
    by (rule put_prop_proto(2) [OF assms(1)])
  have al: "k = Name ''length'' \<Longrightarrow> alen (h1 ! a) = alen (h ! a)"
    using * assms(3) put_obj_Inr(6) [OF *(3)] by (cases "a = t") (auto simp: obj_at_def)
  show ?thesis
    using Ref tg al lookup_chain_other [OF assms(1,2)] put_prop_chain [OF assms(1)]
    by auto
qed (cases k; simp)+

lemma get_prop_same:
  assumes "put_prop h x k v = Inr h1" "get_prop h y k = v"
  shows "get_prop h1 y k = v"
proof (cases y)
  case (Ref a)
  from assms obtain t ob' where *: "x = Ref t" "t < length h" "put_obj (h ! t) k v = Inr ob'" "h1 = h[t := ob']"
    by (auto elim: put_prop_Inr)
  have tg: "map_option tag (obj_at h1 a) = map_option tag (obj_at h a)"
    by (rule put_prop_proto(2) [OF assms(1)])
  show ?thesis
  proof (cases "k = Name ''length'' \<and> map_option tag (obj_at h a) = Some ArrayObject")
    case True
    then have "a \<noteq> t"
      using * put_obj_Inr(5) [OF *(3)] by (auto simp: obj_at_def split: if_splits)
    then show ?thesis
      using True Ref tg assms(2) * by simp
  next
    case False
    then show ?thesis
      using Ref tg assms(2) lookup_chain_same [OF assms(1), of "chain h a"] put_prop_chain [OF assms(1)]
      by (auto split: option.splits)
  qed
qed (use assms in \<open>(cases k; simp)+\<close>)

subsection \<open>Enumerating after writing\<close>

lemma set_dedup [simp]: "set (dedup ks) = set ks"
  by (induction ks rule: dedup.induct) auto

lemma distinct_dedup [simp]: "distinct (dedup ks)"
  by (induction ks rule: dedup.induct) auto

lemma distinct_for_in: "distinct (for_in h y)"
  by (cases y) (simp_all add: distinct_map inj_on_def)

lemma own_keys_put:
  assumes "put_prop h x k v = Inr h1"
  shows "set (own_keys h1 a) \<subseteq> insert k (set (own_keys h a))"
proof -
  from assms obtain t ob' where *: "x = Ref t" "t < length h" "put_obj (h ! t) k v = Inr ob'" "h1 = h[t := ob']"
    by (auto elim: put_prop_Inr)
  show ?thesis
    using * put_obj_Inr(3) [OF *(3)] keys_upd_prop [of k v "props (h ! t)"]
    by (cases "a = t") (auto simp: own_keys_def obj_at_def)
qed

lemma for_in_put:
  assumes "put_prop h x k v = Inr h1"
  shows "set (for_in h1 y) \<subseteq> insert k (set (for_in h y))"
proof (cases y)
  case (Ref a)
  show ?thesis
    using own_keys_put [OF assms] by (auto simp: Ref put_prop_chain [OF assms])
qed auto

section \<open>The shallow merge\<close>

lemma shallow_key:
  "mixin_key copy mix False True [] h c x s k =
     (case put_prop h x k (get_prop h s k) of Inl e \<Rightarrow> Raise e | Inr h' \<Rightarrow> Done (h', c))"
  by (simp add: mixin_key_def merged_value_def)

lemma put_prop_settles:
  assumes "put_prop h x k (get_prop h s k) = Inr h1"
  shows "put_prop h1 x k (get_prop h1 s k) = Inr h1"
proof -
  from assms obtain t ob' where *: "x = Ref t" "t < length h"
      "put_obj (h ! t) k (get_prop h s k) = Inr ob'" "h1 = h[t := ob']"
    by (auto elim: put_prop_Inr)
  have "get_prop h1 s k = get_prop h s k"
    using assms by (rule get_prop_same) simp
  then show ?thesis
    using * put_obj_idem [OF *(3)] by (simp add: obj_at_def)
qed

lemma put_prop_keeps_settled:
  assumes "put_prop h x k' (get_prop h s k') = Inr h" "k' \<noteq> k" "put_prop h x k v = Inr h1"
  shows "put_prop h1 x k' (get_prop h1 s k') = Inr h1"
proof -
  from assms(3) obtain t ob' where *: "x = Ref t" "t < length h"
      "put_obj (h ! t) k v = Inr ob'" "h1 = h[t := ob']"
    by (auto elim: put_prop_Inr)
  from assms(1) * obtain ob0 where fixed: "put_obj (h ! t) k' (get_prop h s k') = Inr ob0" "h = h[t := ob0]"
    by (auto simp: obj_at_def split: sum.splits)
  have "ob0 = h ! t"
    using fixed(2) *(2) by (metis nth_list_update_eq)
  with fixed have fixed': "put_obj (h ! t) k' (get_prop h s k') = Inr (h ! t)" by simp
  have notarr: "k' = Name ''length'' \<Longrightarrow> \<not> isArray h x"
    using put_obj_Inr(5) [OF fixed'] * by (auto simp: obj_at_def)
  have "get_prop h1 s k' = get_prop h s k'"
    using assms(3,2) notarr by (rule get_prop_other)
  moreover have "put_obj ob' k' (get_prop h s k') = Inr ob'"
    using fixed' assms(2) *(3) by (rule put_obj_fixed_other)
  ultimately show ?thesis
    using * by (simp add: obj_at_def)
qed

lemma shallow_first_run:
  assumes "each_key copy mix False True [] h c x s ks = Done (h', c')" "distinct ks"
  shows "(\<forall>k\<in>set ks. put_prop h' x k (get_prop h' s k) = Inr h') \<and>
         (\<forall>k. k \<notin> set ks \<longrightarrow> put_prop h x k (get_prop h s k) = Inr h
              \<longrightarrow> put_prop h' x k (get_prop h' s k) = Inr h') \<and>
         set (for_in h' s) \<subseteq> set (for_in h s) \<union> set ks \<and> c' = c"
  using assms
proof (induction ks arbitrary: h)
  case Nil
  then show ?case by simp
next
  case (Cons k ks)
  from Cons.prems(1) obtain h1 where
    step: "put_prop h x k (get_prop h s k) = Inr h1" and
    rest: "each_key copy mix False True [] h1 c x s ks = Done (h', c')"
    by (auto simp: shallow_key split: sum.splits)
  from Cons.prems(2) have d: "k \<notin> set ks" "distinct ks" by simp_all
  note ih = Cons.IH [OF rest d(2)]
  have k_settled: "put_prop h1 x k (get_prop h1 s k) = Inr h1"
    using step by (rule put_prop_settles)
  have a: "\<forall>k'\<in>set (k # ks). put_prop h' x k' (get_prop h' s k') = Inr h'"
    using ih k_settled d(1) by auto
  have b: "\<forall>k'. k' \<notin> set (k # ks) \<longrightarrow> put_prop h x k' (get_prop h s k') = Inr h
              \<longrightarrow> put_prop h' x k' (get_prop h' s k') = Inr h'"
  proof (intro allI impI)
    fix k'
    assume "k' \<notin> set (k # ks)" and f: "put_prop h x k' (get_prop h s k') = Inr h"
    then have ne: "k' \<noteq> k" and nin: "k' \<notin> set ks" by simp_all
    have "put_prop h1 x k' (get_prop h1 s k') = Inr h1"
      using f ne step by (rule put_prop_keeps_settled)
    with ih nin show "put_prop h' x k' (get_prop h' s k') = Inr h'" by blast
  qed
  have c: "set (for_in h' s) \<subseteq> set (for_in h s) \<union> set (k # ks)"
    using ih for_in_put [OF step, of s] by auto
  show ?case using a b c ih by blast
qed

lemma shallow_second_run:
  assumes "\<forall>k\<in>set ks. put_prop h x k (get_prop h s k) = Inr h"
  shows "each_key copy mix False True [] h c x s ks = Done (h, c)"
  using assms by (induction ks) (simp_all add: shallow_key)

text \<open>Claim C9 (idempotence of the shallow merge). When \<open>mixin\<close> has merged a source into a
  target and returned, merging the same source into the same target again returns the same
  target and leaves the store as the first call left it.\<close>

theorem mixin_twice:
  assumes "mixin n h target [source] = Done (h', r)"
  shows "mixin n h' target [source] = Done (h', r)"
proof (cases n)
  case 0
  with assms show ?thesis by (simp add: mixin_def finish_def)
next
  case (Suc m)
  show ?thesis
  proof (cases "source = Null \<or> source = Undefined")
    case True
    with assms Suc show ?thesis by (auto simp: mixin_def finish_def)
  next
    case False
    let ?copy = "\<lambda>h' a' i'. copyArray m h' a' i'"
    let ?mix = "\<lambda>i' h' c' t' s'. mixin_core m True i' h' c' t' s'"
    from assms Suc False obtain c' where
      run: "each_key ?copy ?mix False True [] h [] target source (for_in h source) = Done (h', c')"
      and r: "r = target"
      by (auto simp: mixin_def finish_def split: outcome.splits)
    from shallow_first_run [OF run distinct_for_in]
    have settled: "\<forall>k\<in>set (for_in h source). put_prop h' target k (get_prop h' source k) = Inr h'"
      and keys: "set (for_in h' source) \<subseteq> set (for_in h source)"
      by auto
    have "each_key ?copy ?mix False True [] h' [] target source (for_in h' source) = Done (h', [])"
      using settled keys by (intro shallow_second_run) auto
    then show ?thesis
      using Suc False r by (simp add: mixin_def finish_def)
  qed
qed


text \<open>The theorem on the store of claim C4, where the source has a prototype.\<close>

theorem mixin_twice_witness:
  "mixin 1 inherit_heap (Ref 2) [Ref 1] =
     Done (inherit_heap[2 := plain [(Name ''a'', Num 1), (Name ''b'', Num 2)] None], Ref 2) \<and>
   mixin 1 (inherit_heap[2 := plain [(Name ''a'', Num 1), (Name ''b'', Num 2)] None]) (Ref 2) [Ref 1] =
     Done (inherit_heap[2 := plain [(Name ''a'', Num 1), (Name ''b'', Num 2)] None], Ref 2)"
proof -
  have first: "mixin 1 inherit_heap (Ref 2) [Ref 1] =
     Done (inherit_heap[2 := plain [(Name ''a'', Num 1), (Name ''b'', Num 2)] None], Ref 2)"
    by (simp add: engine_defs inherit_heap_def numeral_3_eq_3)
  show ?thesis
    using mixin_twice [OF first] first by simp
qed

section \<open>The frame of a deep merge\<close>

lemma obj_in_iff:
  "obj_in A ob \<longleftrightarrow>
     (\<forall>v\<in>snd ` set (props ob). val_in A v) \<and> (\<forall>p. proto ob = Some p \<longrightarrow> p \<in> A)"
  by (simp add: obj_in_def split: option.splits)

lemma val_in_mono: "val_in A v \<Longrightarrow> A \<subseteq> B \<Longrightarrow> val_in B v"
  by (cases v) auto

lemma obj_in_mono: "obj_in A ob \<Longrightarrow> A \<subseteq> B \<Longrightarrow> obj_in B ob"
  unfolding obj_in_iff by (blast intro: val_in_mono)

lemma values_upd_prop: "snd ` set (upd_prop k v ps) \<subseteq> insert v (snd ` set ps)"
proof -
  have a: "snd ` set (insert_new k v ps) \<subseteq> insert v (snd ` set ps)"
    by (induction k v ps rule: insert_new.induct) auto
  have b: "snd ` set (map (set_val k v) ps) \<subseteq> insert v (snd ` set ps)"
  proof
    fix w assume "w \<in> snd ` set (map (set_val k v) ps)"
    then obtain q where q: "q \<in> set ps" "w = snd (set_val k v q)" by auto
    have "snd (set_val k v q) = v \<or> snd (set_val k v q) = snd q"
      by (cases q) (simp add: set_val_def)
    with q show "w \<in> insert v (snd ` set ps)" by auto
  qed
  show ?thesis using a b by (simp add: upd_prop_def)
qed

lemma obj_in_put:
  assumes "put_obj ob k v = Inr ob'" "obj_in A ob" "val_in A v"
  shows "obj_in A ob'"
  using assms(2,3) values_upd_prop [of k v "props ob"]
  unfolding obj_in_iff put_obj_Inr(2,3) [OF assms(1)] by blast

lemma proto_chain_in:
  assumes "\<forall>a\<in>A. a < length h \<longrightarrow> obj_in A (h ! a)" "a \<in> A"
  shows "set (proto_chain h n seen a) \<subseteq> A \<inter> {..<length h}"
  using assms(2)
proof (induction n arbitrary: a seen)
  case 0
  show ?case by simp
next
  case (Suc n)
  show ?case
  proof (cases "a < length h")
    case False
    then show ?thesis by (simp add: obj_at_def)
  next
    case True
    with assms(1) Suc.prems have "obj_in A (h ! a)" by blast
    then have p: "\<And>p. proto (h ! a) = Some p \<Longrightarrow> p \<in> A" by (simp add: obj_in_iff)
    show ?thesis
    proof (cases "proto (h ! a)")
      case None
      with True Suc.prems show ?thesis by (simp add: obj_at_def)
    next
      case (Some q)
      with p have "q \<in> A" by simp
      from Suc.IH [OF this, of "a # seen"] Some True Suc.prems show ?thesis by (simp add: obj_at_def)
    qed
  qed
qed

lemma lookup_chain_in:
  assumes "\<forall>a\<in>A. a < length h \<longrightarrow> obj_in A (h ! a)" "set as \<subseteq> A" "lookup_chain h as k = Some v"
  shows "val_in A v"
  using assms(2,3)
proof (induction as)
  case Nil
  then show ?case by simp
next
  case (Cons a as)
  show ?case
  proof (cases "a < length h \<and> map_of (props (h ! a)) k \<noteq> None")
    case True
    with Cons.prems have "map_of (props (h ! a)) k = Some v" by (auto simp: obj_at_def)
    then have "v \<in> snd ` set (props (h ! a))" by (force dest: map_of_SomeD)
    moreover have "obj_in A (h ! a)" using assms(1) True Cons.prems(1) by simp
    ultimately show ?thesis by (auto simp: obj_in_iff)
  next
    case False
    with Cons show ?thesis by (auto simp: obj_at_def split: if_splits)
  qed
qed

lemma get_prop_in:
  assumes "\<forall>a\<in>A. a < length h \<longrightarrow> obj_in A (h ! a)" "val_in A x"
  shows "val_in A (get_prop h x k)"
proof (cases x)
  case (Ref a)
  have "set (chain h a) \<subseteq> A"
    using proto_chain_in [OF assms(1), of a "length h" "[]"] assms(2) Ref by (auto simp: chain_def)
  then show ?thesis
    using lookup_chain_in [OF assms(1), of "chain h a" k] Ref
    by (auto split: option.splits)
qed (cases k; simp)+

lemma frame_inv_refl:
  assumes "self_contained h T"
  shows "frame_inv h T h"
proof -
  have "obj_in (owned h T) (h ! a)" if "a \<in> owned h T" "a < length h" for a
  proof -
    from that have "a \<in> T" by (auto simp: owned_def)
    with assms have "obj_in T (h ! a)" by (simp add: self_contained_def)
    then show ?thesis by (rule obj_in_mono) (simp add: owned_def)
  qed
  then show ?thesis by (simp add: frame_inv_def)
qed

lemma frame_inv_alloc:
  assumes "frame_inv h0 T h" "obj_in (owned h0 T) ob"
  shows "frame_inv h0 T (h @ [ob])" "length h \<in> owned h0 T"
proof -
  show fresh: "length h \<in> owned h0 T"
    using assms(1) by (simp add: frame_inv_def owned_def)
  have out: "(h @ [ob]) ! a = h0 ! a" if "a < length h0" "a \<notin> T" for a
    using that assms(1) by (simp add: frame_inv_def nth_append)
  have own: "obj_in (owned h0 T) ((h @ [ob]) ! a)" if "a \<in> owned h0 T" "a < length (h @ [ob])" for a
  proof (cases "a < length h")
    case True
    with that assms(1) show ?thesis by (simp add: frame_inv_def nth_append)
  next
    case False
    with that have "a = length h" by simp
    with assms(2) show ?thesis by simp
  qed
  have "length h0 \<le> length (h @ [ob])" using assms(1) by (simp add: frame_inv_def)
  then show "frame_inv h0 T (h @ [ob])"
    unfolding frame_inv_def using out own by blast
qed

lemma frame_inv_put:
  assumes "frame_inv h0 T h" "val_in (owned h0 T) x" "val_in (owned h0 T) v" "put_prop h x k v = Inr h1"
  shows "frame_inv h0 T h1"
proof -
  from assms(4) obtain t ob' where *: "x = Ref t" "t < length h" "put_obj (h ! t) k v = Inr ob'" "h1 = h[t := ob']"
    by (auto elim: put_prop_Inr)
  have t: "t \<in> owned h0 T" using assms(2) * by simp
  then have old: "obj_in (owned h0 T) (h ! t)" using assms(1) * by (simp add: frame_inv_def)
  have ob': "obj_in (owned h0 T) ob'" using *(3) old assms(3) by (rule obj_in_put)
  have len: "length h0 \<le> length h1" using assms(1) * by (simp add: frame_inv_def)
  have out: "h1 ! a = h0 ! a" if "a < length h0" "a \<notin> T" for a
  proof -
    from that t have "a \<noteq> t" by (auto simp: owned_def)
    then have "h1 ! a = h ! a" using * by simp
    with that assms(1) show ?thesis by (simp add: frame_inv_def)
  qed
  have own: "obj_in (owned h0 T) (h1 ! a)" if "a \<in> owned h0 T" "a < length h1" for a
  proof (cases "a = t")
    case True
    then show ?thesis using * ob' by simp
  next
    case False
    then have "h1 ! a = h ! a" using * by simp
    with that assms(1) * show ?thesis by (simp add: frame_inv_def)
  qed
  show ?thesis
    unfolding frame_inv_def using len out own by blast
qed

lemma frame_inv_source:
  assumes "frame_inv h0 T h" "self_contained h0 S" "S \<inter> T = {}"
  shows "\<forall>a\<in>S. a < length h \<longrightarrow> obj_in S (h ! a)" "\<forall>a\<in>S. a < length h \<and> h ! a = h0 ! a"
proof -
  show b: "\<forall>a\<in>S. a < length h \<and> h ! a = h0 ! a"
  proof
    fix a assume a: "a \<in> S"
    then have "a < length h0" using assms(2) by (simp add: self_contained_def)
    moreover have "a \<notin> T" using a assms(3) by blast
    ultimately show "a < length h \<and> h ! a = h0 ! a"
      using assms(1) by (simp add: frame_inv_def)
  qed
  show "\<forall>a\<in>S. a < length h \<longrightarrow> obj_in S (h ! a)"
    using b assms(2) by (simp add: self_contained_def)
qed

lemma source_value_kind:
  assumes "frame_inv h0 T h" "self_contained h0 S" "S \<inter> T = {}" "no_opaque h0 S" "val_in S v"
    "\<not> isArray h v" "\<not> shouldDeepCopyObject h v"
  shows "val_in A v"
proof (cases v)
  case (Ref a)
  with assms(5) have "a \<in> S" by simp
  then have "a < length h" "h ! a = h0 ! a" "tag (h0 ! a) \<noteq> OtherObject"
    using frame_inv_source(2) [OF assms(1-3)] assms(4) by (auto simp: no_opaque_def)
  with assms(6,7) Ref show ?thesis
    by (cases "tag (h0 ! a)") (auto simp: obj_at_def)
qed simp_all

lemma copy_item_frames:
  assumes cf: "copy_frames h0 T S copy" and mf: "mix_frames h0 T S mix"
    and sep: "self_contained h0 S" "S \<inter> T = {}" "no_opaque h0 S"
    and inv: "frame_inv h0 T h" and item: "val_in S item"
    and run: "copy_item copy mix h inherited item = Done (h', v)"
  shows "frame_inv h0 T h' \<and> val_in (owned h0 T) v"
proof (cases "isArray h item")
  case True
  then obtain a where a: "item = Ref a" by (cases item) auto
  with item have "a \<in> S" by simp
  with cf run True a inv show ?thesis
    unfolding copy_frames_def copy_item_def by auto
next
  case False
  show ?thesis
  proof (cases "shouldDeepCopyObject h item")
    case False
    with \<open>\<not> isArray h item\<close> run have "h' = h" "v = item" by (simp_all add: copy_item_def)
    moreover have "val_in (owned h0 T) item"
      using inv sep item \<open>\<not> isArray h item\<close> False by (rule source_value_kind)
    ultimately show ?thesis using inv by simp
  next
    case True
    let ?h1 = "h @ [empty_object]"
    have e: "obj_in (owned h0 T) empty_object" by (simp add: obj_in_iff empty_object_def)
    have inv1: "frame_inv h0 T ?h1" and t: "val_in (owned h0 T) (Ref (length h))"
      using frame_inv_alloc [OF inv e] by simp_all
    from run True \<open>\<not> isArray h item\<close> obtain c where
      m: "mix inherited ?h1 [] (Ref (length h)) [item] = Done (h', c, v)"
      by (auto simp: copy_item_def alloc_def split: outcome.splits)
    have srcs: "list_all (val_in S) [item]" using item by simp
    have "frame_inv h0 T h' \<and> v = Ref (length h)"
      using mf [unfolded mix_frames_def, rule_format, OF m inv1 t srcs] .
    with t show ?thesis by simp
  qed
qed

lemma map_items_frames:
  assumes cf: "copy_frames h0 T S copy" and mf: "mix_frames h0 T S mix"
    and sep: "self_contained h0 S" "S \<inter> T = {}" "no_opaque h0 S"
    and a: "a \<in> S" and res: "val_in (owned h0 T) result"
    and inv: "frame_inv h0 T h"
    and run: "map_items copy mix h a result inherited is = Done h'"
  shows "frame_inv h0 T h'"
  using inv run
proof (induction "is" arbitrary: h)
  case Nil
  then show ?case by simp
next
  case (Cons i "is")
  show ?case
  proof (cases "has_property h a (Idx i)")
    case False
    with Cons show ?thesis by simp
  next
    case True
    from Cons.prems(2) True obtain h1 v h2 where
      item: "copy_item copy mix h inherited (get_prop h (Ref a) (Idx i)) = Done (h1, v)" and
      put: "put_prop h1 result (Idx i) v = Inr h2" and
      rest: "map_items copy mix h2 a result inherited is = Done h'"
      by (auto split: outcome.splits sum.splits)
    have "val_in S (get_prop h (Ref a) (Idx i))"
      using frame_inv_source(1) [OF Cons.prems(1) sep(1,2)] a by (intro get_prop_in) simp_all
    from copy_item_frames [OF cf mf sep Cons.prems(1) this item]
    have inv1: "frame_inv h0 T h1" and v: "val_in (owned h0 T) v" by simp_all
    have "frame_inv h0 T h2" using inv1 res v put by (rule frame_inv_put)
    then show ?thesis using rest by (rule Cons.IH)
  qed
qed

lemma copyArray_body_frames:
  assumes cf: "copy_frames h0 T S copy" and mf: "mix_frames h0 T S mix"
    and sep: "self_contained h0 S" "S \<inter> T = {}" "no_opaque h0 S"
  shows "copy_frames h0 T S (copyArray_body copy mix)"
  unfolding copy_frames_def
proof (intro allI impI)
  fix h a inherited h' v
  assume run: "copyArray_body copy mix h (Ref a) inherited = Done (h', v)"
    and a: "a \<in> S" and inv: "frame_inv h0 T h"
  define len where "len = (case obj_at h a of None \<Rightarrow> 0 | Some ob \<Rightarrow> alen ob)"
  let ?h1 = "h @ [new_array len]"
  have e: "obj_in (owned h0 T) (new_array len)" by (simp add: obj_in_iff new_array_def)
  have inv1: "frame_inv h0 T ?h1" and r: "val_in (owned h0 T) (Ref (length h))"
    using frame_inv_alloc [OF inv e] by simp_all
  from run have
    m: "map_items copy mix ?h1 a (Ref (length h)) inherited [0..<len] = Done h'" and
    v: "v = Ref (length h)"
    by (auto simp: copyArray_body_def alloc_def len_def Let_def split: outcome.splits)
  have "frame_inv h0 T h'"
    using cf mf sep a r inv1 m by (rule map_items_frames)
  with r v show "frame_inv h0 T h' \<and> val_in (owned h0 T) v" by simp
qed

lemma merged_value_frames:
  assumes cf: "copy_frames h0 T S copy" and mf: "mix_frames h0 T S mix"
    and sep: "self_contained h0 S" "S \<inter> T = {}" "no_opaque h0 S"
    and inv: "frame_inv h0 T h" and tgt: "val_in (owned h0 T) target" and v: "val_in S v"
    and run: "merged_value copy mix True inherited h copied target source k v = Done (h2, c2, v2)"
  shows "frame_inv h0 T h2 \<and> val_in (owned h0 T) v2"
proof (cases "isArray h v")
  case True
  then obtain a where a: "v = Ref a" by (cases v) auto
  with v have "a \<in> S" by simp
  moreover from run True a have "copy h (Ref a) inherited = Done (h2, v2)"
    by (auto simp: merged_value_def split: outcome.splits)
  ultimately show ?thesis
    using cf inv unfolding copy_frames_def by blast
next
  case False
  show ?thesis
  proof (cases "shouldDeepCopyObject h v")
    case False
    with \<open>\<not> isArray h v\<close> run have "h2 = h" "v2 = v" by (simp_all add: merged_value_def)
    moreover have "val_in (owned h0 T) v"
      using inv sep v \<open>\<not> isArray h v\<close> False by (rule source_value_kind)
    ultimately show ?thesis using inv by simp
  next
    case True
    have own: "\<forall>a\<in>owned h0 T. a < length h \<longrightarrow> obj_in (owned h0 T) (h ! a)"
      using inv by (simp add: frame_inv_def)
    have tv: "val_in (owned h0 T) (get_prop h target k)"
      using own tgt by (rule get_prop_in)
    show ?thesis
    proof (cases "truthy (get_prop h target k)")
      case truthy: True
      from run True \<open>\<not> isArray h v\<close> truthy have
        m: "mix inherited h (copied @ [source]) (get_prop h target k) [v] = Done (h2, c2, v2)"
        by (auto simp: merged_value_def read_prop_def split: if_splits)
      have srcs: "list_all (val_in S) [v]" using v by simp
      from mf [unfolded mix_frames_def, rule_format, OF m inv tv srcs] tv
      show ?thesis by simp
    next
      case falsy: False
      let ?h1 = "h @ [empty_object]"
      have e: "obj_in (owned h0 T) empty_object" by (simp add: obj_in_iff empty_object_def)
      have inv1: "frame_inv h0 T ?h1" and t: "val_in (owned h0 T) (Ref (length h))"
        using frame_inv_alloc [OF inv e] by simp_all
      from run True \<open>\<not> isArray h v\<close> falsy have
        m: "mix inherited ?h1 (copied @ [source]) (Ref (length h)) [v] = Done (h2, c2, v2)"
        by (auto simp: merged_value_def read_prop_def alloc_def split: if_splits)
      have srcs: "list_all (val_in S) [v]" using v by simp
      from mf [unfolded mix_frames_def, rule_format, OF m inv1 t srcs] t
      show ?thesis by simp
    qed
  qed
qed

lemma mixin_key_frames:
  assumes cf: "copy_frames h0 T S copy" and mf: "mix_frames h0 T S mix"
    and sep: "self_contained h0 S" "S \<inter> T = {}" "no_opaque h0 S"
    and inv: "frame_inv h0 T h" and tgt: "val_in (owned h0 T) target" and src: "val_in S source"
    and run: "mixin_key copy mix True inherited clone h copied target source k = Done (h', c')"
  shows "frame_inv h0 T h'"
proof -
  let ?v = "get_prop h source k"
  have v: "val_in S ?v"
    using frame_inv_source(1) [OF inv sep(1,2)] src by (rule get_prop_in)
  show ?thesis
  proof (cases "(inherited \<or> has_own h source k) \<and> ?v \<notin> set clone")
    case False
    with run inv show ?thesis by (auto simp: mixin_key_def Let_def split: if_splits)
  next
    case True
    with run obtain h2 c2 v2 where
      mv: "merged_value copy mix True inherited h copied target source k ?v = Done (h2, c2, v2)" and
      put: "put_prop h2 target k v2 = Inr h'"
      by (auto simp: mixin_key_def Let_def split: outcome.splits sum.splits)
    from merged_value_frames [OF cf mf sep inv tgt v mv]
    have "frame_inv h0 T h2" "val_in (owned h0 T) v2" by simp_all
    then show ?thesis using tgt put by (intro frame_inv_put [of h0 T h2 target v2 k h'])
  qed
qed

lemma each_key_frames:
  assumes cf: "copy_frames h0 T S copy" and mf: "mix_frames h0 T S mix"
    and sep: "self_contained h0 S" "S \<inter> T = {}" "no_opaque h0 S"
    and tgt: "val_in (owned h0 T) target" and src: "val_in S source"
    and inv: "frame_inv h0 T h"
    and run: "each_key copy mix True inherited clone h copied target source ks = Done (h', c')"
  shows "frame_inv h0 T h'"
  using inv run
proof (induction ks arbitrary: h copied)
  case Nil
  then show ?case by simp
next
  case (Cons k ks)
  from Cons.prems(2) obtain h1 c1 where
    step: "mixin_key copy mix True inherited clone h copied target source k = Done (h1, c1)" and
    rest: "each_key copy mix True inherited clone h1 c1 target source ks = Done (h', c')"
    by (auto split: outcome.splits)
  have "frame_inv h0 T h1"
    using cf mf sep Cons.prems(1) tgt src step by (rule mixin_key_frames)
  then show ?case using rest by (rule Cons.IH)
qed

lemma each_source_frames:
  assumes cf: "copy_frames h0 T S copy" and mf: "mix_frames h0 T S mix"
    and sep: "self_contained h0 S" "S \<inter> T = {}" "no_opaque h0 S"
    and tgt: "val_in (owned h0 T) target"
    and inv: "frame_inv h0 T h" and srcs: "list_all (val_in S) sources"
    and run: "each_source copy mix True inherited clone h copied target sources = Done (h', c', r)"
  shows "frame_inv h0 T h' \<and> r = target"
  using inv srcs run
proof (induction sources arbitrary: h copied)
  case Nil
  then show ?case by simp
next
  case (Cons source sources)
  show ?case
  proof (cases "source = Null \<or> source = Undefined")
    case True
    with Cons show ?thesis by simp
  next
    case False
    with Cons.prems(3) obtain h1 c1 where
      keys: "each_key copy mix True inherited clone h copied target source (for_in h source) = Done (h1, c1)" and
      rest: "each_source copy mix True inherited clone h1 c1 target sources = Done (h', c', r)"
      by (auto split: outcome.splits)
    have src: "val_in S source" using Cons.prems(2) by simp
    have "frame_inv h0 T h1"
      using cf mf sep tgt src Cons.prems(1) keys by (rule each_key_frames)
    moreover have "list_all (val_in S) sources" using Cons.prems(2) by simp
    ultimately show ?thesis using rest by (rule Cons.IH)
  qed
qed

lemma engine_frames:
  assumes sep: "self_contained h0 S" "S \<inter> T = {}" "no_opaque h0 S"
  shows "copy_frames h0 T S (\<lambda>h a i. copyArray n h a i) \<and>
         mix_frames h0 T S (\<lambda>i h c t s. mixin_core n True i h c t s)"
proof (induction n)
  case 0
  show ?case by (simp add: copy_frames_def mix_frames_def)
next
  case (Suc n)
  then have cf: "copy_frames h0 T S (\<lambda>h a i. copyArray n h a i)"
    and mf: "mix_frames h0 T S (\<lambda>i h c t s. mixin_core n True i h c t s)" by simp_all
  have "copy_frames h0 T S (\<lambda>h a i. copyArray (Suc n) h a i)"
    using copyArray_body_frames [OF cf mf sep] by (simp add: copy_frames_def)
  moreover have "mix_frames h0 T S (\<lambda>i h c t s. mixin_core (Suc n) True i h c t s)"
    unfolding mix_frames_def
  proof (intro allI impI)
    fix inherited h c t srcs h' c' r
    assume "mixin_core (Suc n) True inherited h c t srcs = Done (h', c', r)"
      "frame_inv h0 T h" "val_in (owned h0 T) t" "list_all (val_in S) srcs"
    then show "frame_inv h0 T h' \<and> r = t"
      using each_source_frames [OF cf mf sep, of t h srcs inherited c c h' c' r] by simp
  qed
  ultimately show ?case by simp
qed

subsection \<open>What a source shows does not depend on the rest of the store\<close>






section \<open>The frame of a shallow merge\<close>





section \<open>Sources are read, not written\<close>





section \<open>The last source wins\<close>










section \<open>The target of a nested merge\<close>






section \<open>The list of visited sources\<close>

lemma merged_value_grows:
  assumes mg: "deep \<longrightarrow> mix_grows mix" and sub: "set clone \<subseteq> set copied" and v: "v \<notin> set clone"
    and run: "merged_value copy mix deep inherited h copied target source k v = Done (h2, c2, v2)"
  shows "\<exists>ext. c2 = copied @ ext \<and> (\<forall>x\<in>set ext. x = source \<or> x \<notin> set clone)"
proof (cases "deep \<and> \<not> isArray h v \<and> shouldDeepCopyObject h v")
  case False
  with run have "c2 = copied"
    by (auto simp: merged_value_def split: if_splits outcome.splits)
  then show ?thesis by simp
next
  case True
  with run obtain h1 tv where
    m: "mix inherited h1 (copied @ [source]) tv [v] = Done (h2, c2, v2)"
    by (auto simp: merged_value_def Let_def split: sum.splits if_splits prod.splits)
  from mg True have "mix_grows mix" by simp
  from this [unfolded mix_grows_def, rule_format, OF m] obtain e where
    e: "c2 = (copied @ [source]) @ e" "\<forall>x\<in>set e. x \<in> set [v] \<or> x \<notin> set (copied @ [source])"
    by blast
  have "\<forall>x\<in>set (source # e). x = source \<or> x \<notin> set clone"
    using e(2) v sub by auto
  with e(1) show ?thesis by (intro exI [of _ "source # e"]) simp
qed

lemma mixin_key_grows:
  assumes mg: "deep \<longrightarrow> mix_grows mix" and sub: "set clone \<subseteq> set copied"
    and run: "mixin_key copy mix deep inherited clone h copied target source k = Done (h', c')"
  shows "\<exists>ext. c' = copied @ ext \<and> (\<forall>x\<in>set ext. x = source \<or> x \<notin> set clone)"
proof (cases "(inherited \<or> has_own h source k) \<and> get_prop h source k \<notin> set clone")
  case False
  with run have "c' = copied" by (auto simp: mixin_key_def Let_def split: if_splits)
  then show ?thesis by simp
next
  case True
  with run obtain h2 v2 where
    "merged_value copy mix deep inherited h copied target source k (get_prop h source k) = Done (h2, c', v2)"
    by (auto simp: mixin_key_def Let_def split: outcome.splits sum.splits)
  with mg sub True show ?thesis by (intro merged_value_grows [of deep mix clone copied]) auto
qed

lemma each_key_grows:
  assumes mg: "deep \<longrightarrow> mix_grows mix" and sub: "set clone \<subseteq> set copied"
    and run: "each_key copy mix deep inherited clone h copied target source ks = Done (h', c')"
  shows "\<exists>ext. c' = copied @ ext \<and> (\<forall>x\<in>set ext. x = source \<or> x \<notin> set clone)"
  using sub run
proof (induction ks arbitrary: h copied)
  case Nil
  then show ?case by simp
next
  case (Cons k ks)
  from Cons.prems(2) obtain h1 c1 where
    step: "mixin_key copy mix deep inherited clone h copied target source k = Done (h1, c1)" and
    rest: "each_key copy mix deep inherited clone h1 c1 target source ks = Done (h', c')"
    by (auto split: outcome.splits)
  from mixin_key_grows [OF mg Cons.prems(1) step] obtain e1 where
    e1: "c1 = copied @ e1" "\<forall>x\<in>set e1. x = source \<or> x \<notin> set clone" by blast
  then have "set clone \<subseteq> set c1" using Cons.prems(1) by auto
  from Cons.IH [OF this rest] obtain e2 where
    e2: "c' = c1 @ e2" "\<forall>x\<in>set e2. x = source \<or> x \<notin> set clone" by blast
  from e1 e2 show ?case by (intro exI [of _ "e1 @ e2"]) auto
qed

lemma each_source_grows:
  assumes mg: "deep \<longrightarrow> mix_grows mix" and sub: "set clone \<subseteq> set copied"
    and run: "each_source copy mix deep inherited clone h copied target sources = Done (h', c', r)"
  shows "\<exists>ext. c' = copied @ ext \<and> (\<forall>x\<in>set ext. x \<in> set sources \<or> x \<notin> set clone)"
  using sub run
proof (induction sources arbitrary: h copied)
  case Nil
  then show ?case by simp
next
  case (Cons source sources)
  show ?case
  proof (cases "source = Null \<or> source = Undefined")
    case True
    with Cons.prems have "each_source copy mix deep inherited clone h copied target sources = Done (h', c', r)"
      by simp
    from Cons.IH [OF Cons.prems(1) this] show ?thesis by auto
  next
    case False
    with Cons.prems(2) obtain h1 c1 where
      keys: "each_key copy mix deep inherited clone h copied target source (for_in h source) = Done (h1, c1)" and
      rest: "each_source copy mix deep inherited clone h1 c1 target sources = Done (h', c', r)"
      by (auto split: outcome.splits)
    from each_key_grows [OF mg Cons.prems(1) keys] obtain e1 where
      e1: "c1 = copied @ e1" "\<forall>x\<in>set e1. x = source \<or> x \<notin> set clone" by blast
    then have "set clone \<subseteq> set c1" using Cons.prems(1) by auto
    from Cons.IH [OF this rest] obtain e2 where
      e2: "c' = c1 @ e2" "\<forall>x\<in>set e2. x \<in> set sources \<or> x \<notin> set clone" by blast
    from e1 e2 show ?thesis by (intro exI [of _ "e1 @ e2"]) auto
  qed
qed

lemma mixin_core_grows: "mix_grows (\<lambda>i h c t s. mixin_core n True i h c t s)"
proof (induction n)
  case 0
  show ?case by (simp add: mix_grows_def)
next
  case (Suc n)
  show ?case
    unfolding mix_grows_def
  proof (intro allI impI)
    fix inherited h c t srcs h' c' r
    assume "mixin_core (Suc n) True inherited h c t srcs = Done (h', c', r)"
    then have "each_source (\<lambda>h' a' i'. copyArray n h' a' i') (\<lambda>i' h' c' t' s'. mixin_core n True i' h' c' t' s')
        True inherited c h c t srcs = Done (h', c', r)" by simp
    from each_source_grows [OF _ _ this] Suc
    show "\<exists>ext. c' = c @ ext \<and> (\<forall>x\<in>set ext. x \<in> set srcs \<or> x \<notin> set c)" by simp
  qed
qed










section \<open>Termination\<close>

lemma rank_descent:
  assumes "finite S" "v \<in> Ref ` S" "v \<notin> A" "A \<union> {s} \<subseteq> A'"
  shows "rank S A' v < rank S A s"
proof -
  define x where "x = card (Ref ` S - A' - {v})"
  define y where "y = card (Ref ` S - A - {s})"
  have goal: "rank S A' v < rank S A s"
    if "2 * x + (if v \<in> A' then 0 else 1) < 2 * y + (if s \<in> A then 0 else (1::nat))"
    using that unfolding rank_def x_def y_def .
  show ?thesis
  proof (cases "v = s")
    case True
    have "Ref ` S - A' - {v} \<subseteq> Ref ` S - A - {s}" using assms(4) True by auto
    then have "x \<le> y"
      unfolding x_def y_def using assms(1) by (intro card_mono) auto
    moreover have "v \<in> A'" "s \<notin> A" using assms(3,4) True by auto
    ultimately show ?thesis by (intro goal) simp
  next
    case False
    have "Ref ` S - A' - {v} \<subset> Ref ` S - A - {s}"
      using assms(2,3,4) False by auto
    then have "x < y"
      unfolding x_def y_def using assms(1) by (intro psubset_card_mono) auto
    then show ?thesis by (intro goal) simp
  qed
qed

lemma plain_source_value:
  assumes inv: "frame_inv h0 T h" and sep: "self_contained h0 S" "S \<inter> T = {}"
    and pl: "all_plain h0 S" and v: "val_in S v"
  shows "\<not> isArray h v" "shouldDeepCopyObject h v \<Longrightarrow> v \<in> Ref ` S"
proof -
  show "\<not> isArray h v"
  proof (cases v)
    case (Ref a)
    with v have "a \<in> S" by simp
    then have "a < length h" "h ! a = h0 ! a" "tag (h0 ! a) = PlainObject"
      using frame_inv_source(2) [OF inv sep] pl by (auto simp: all_plain_def)
    with Ref show ?thesis by (simp add: obj_at_def)
  qed simp_all
  show "shouldDeepCopyObject h v \<Longrightarrow> v \<in> Ref ` S"
    using v by (cases v) auto
qed

lemma merged_value_ends:
  assumes me: "mix_ends h0 T S n mix"
    and sep: "self_contained h0 S" "S \<inter> T = {}" and pl: "all_plain h0 S"
    and inv: "frame_inv h0 T h" and tgt: "val_in (owned h0 T) target" and v: "val_in S v"
    and sub: "set clone \<subseteq> set copied" and fresh: "v \<notin> set clone"
    and bound: "rank S (set clone) source \<le> n"
  shows "merged_value copy mix True inherited h copied target source k v \<noteq> OutOfFuel"
proof (cases "shouldDeepCopyObject h v")
  case False
  then show ?thesis
    using plain_source_value(1) [OF inv sep pl v] by (simp add: merged_value_def)
next
  case True
  have notarr: "\<not> isArray h v" by (rule plain_source_value(1) [OF inv sep pl v])
  have vS: "v \<in> Ref ` S" using True by (rule plain_source_value(2) [OF inv sep pl v])
  have fin: "finite S"
    using sep(1) by (intro finite_subset [of S "{..<length h0}"]) (auto simp: self_contained_def)
  have "rank S (set (copied @ [source])) v < rank S (set clone) source"
    using fin vS fresh sub by (intro rank_descent) auto
  with bound have less: "rank S (set (copied @ [source])) v < n" by simp
  have own: "\<forall>a\<in>owned h0 T. a < length h \<longrightarrow> obj_in (owned h0 T) (h ! a)"
    using inv by (simp add: frame_inv_def)
  have tv: "val_in (owned h0 T) (get_prop h target k)"
    using own tgt by (rule get_prop_in)
  show ?thesis
  proof (cases "target = Null \<or> target = Undefined")
    case True
    with \<open>shouldDeepCopyObject h v\<close> notarr show ?thesis
      by (auto simp: merged_value_def read_prop_def)
  next
    case False
    show ?thesis
    proof (cases "truthy (get_prop h target k)")
      case truthy: True
      have "mix inherited h (copied @ [source]) (get_prop h target k) [v] \<noteq> OutOfFuel"
        using me [unfolded mix_ends_def, rule_format, OF inv tv v less] .
      with False truthy \<open>shouldDeepCopyObject h v\<close> notarr show ?thesis
        by (simp add: merged_value_def read_prop_def)
    next
      case falsy: False
      let ?h1 = "h @ [empty_object]"
      have e: "obj_in (owned h0 T) empty_object" by (simp add: obj_in_iff empty_object_def)
      have inv1: "frame_inv h0 T ?h1" and t: "val_in (owned h0 T) (Ref (length h))"
        using frame_inv_alloc [OF inv e] by simp_all
      have "mix inherited ?h1 (copied @ [source]) (Ref (length h)) [v] \<noteq> OutOfFuel"
        using me [unfolded mix_ends_def, rule_format, OF inv1 t v less] .
      with False falsy \<open>shouldDeepCopyObject h v\<close> notarr show ?thesis
        by (simp add: merged_value_def read_prop_def alloc_def)
    qed
  qed
qed

lemma mixin_key_ends:
  assumes me: "mix_ends h0 T S n mix"
    and sep: "self_contained h0 S" "S \<inter> T = {}" and pl: "all_plain h0 S"
    and inv: "frame_inv h0 T h" and tgt: "val_in (owned h0 T) target" and src: "val_in S source"
    and sub: "set clone \<subseteq> set copied"
    and bound: "rank S (set clone) source \<le> n"
  shows "mixin_key copy mix True inherited clone h copied target source k \<noteq> OutOfFuel"
proof -
  let ?v = "get_prop h source k"
  have v: "val_in S ?v"
    using frame_inv_source(1) [OF inv sep] src by (rule get_prop_in)
  show ?thesis
  proof (cases "(inherited \<or> has_own h source k) \<and> ?v \<notin> set clone")
    case False
    then show ?thesis by (auto simp: mixin_key_def Let_def)
  next
    case True
    then have "merged_value copy mix True inherited h copied target source k ?v \<noteq> OutOfFuel"
      using me sep pl inv tgt v sub bound by (intro merged_value_ends) auto
    with True show ?thesis
      by (auto simp: mixin_key_def Let_def split: outcome.splits sum.splits)
  qed
qed

lemma each_key_ends:
  assumes cf: "copy_frames h0 T S copy" and mf: "mix_frames h0 T S mix" and mg: "mix_grows mix"
    and me: "mix_ends h0 T S n mix"
    and sep: "self_contained h0 S" "S \<inter> T = {}" and pl: "all_plain h0 S"
    and tgt: "val_in (owned h0 T) target" and src: "val_in S source"
    and bound: "rank S (set clone) source \<le> n"
    and inv: "frame_inv h0 T h" and sub: "set clone \<subseteq> set copied"
  shows "each_key copy mix True inherited clone h copied target source ks \<noteq> OutOfFuel"
  using inv sub
proof (induction ks arbitrary: h copied)
  case Nil
  show ?case by simp
next
  case (Cons k ks)
  have opq: "no_opaque h0 S" using pl by (simp add: all_plain_def no_opaque_def)
  have step: "mixin_key copy mix True inherited clone h copied target source k \<noteq> OutOfFuel"
    using me sep pl Cons.prems(1) tgt src Cons.prems(2) bound by (rule mixin_key_ends)
  show ?case
  proof (cases "mixin_key copy mix True inherited clone h copied target source k")
    case OutOfFuel
    with step show ?thesis by simp
  next
    case (Raise e)
    then show ?thesis by simp
  next
    case (Done p)
    obtain h1 c1 where p: "p = (h1, c1)" by (cases p)
    have inv1: "frame_inv h0 T h1"
      using cf mf sep opq Cons.prems(1) tgt src Done [unfolded p] by (rule mixin_key_frames)
    have "deep \<longrightarrow> mix_grows mix" for deep using mg by simp
    from mixin_key_grows [OF this Cons.prems(2) Done [unfolded p]]
    have sub1: "set clone \<subseteq> set c1" using Cons.prems(2) by auto
    from Cons.IH [OF inv1 sub1] Done p show ?thesis by simp
  qed
qed

lemma each_source_ends:
  assumes cf: "copy_frames h0 T S copy" and mf: "mix_frames h0 T S mix" and mg: "mix_grows mix"
    and me: "mix_ends h0 T S n mix"
    and sep: "self_contained h0 S" "S \<inter> T = {}" and pl: "all_plain h0 S"
    and tgt: "val_in (owned h0 T) target"
    and srcs: "list_all (val_in S) sources"
    and bound: "\<forall>s\<in>set sources. rank S (set clone) s \<le> n"
    and inv: "frame_inv h0 T h" and sub: "set clone \<subseteq> set copied"
  shows "each_source copy mix True inherited clone h copied target sources \<noteq> OutOfFuel"
  using srcs bound inv sub
proof (induction sources arbitrary: h copied)
  case Nil
  show ?case by simp
next
  case (Cons source sources)
  have opq: "no_opaque h0 S" using pl by (simp add: all_plain_def no_opaque_def)
  have src: "val_in S source" and rest_srcs: "list_all (val_in S) sources"
    using Cons.prems(1) by simp_all
  have b: "rank S (set clone) source \<le> n" and rest_b: "\<forall>s\<in>set sources. rank S (set clone) s \<le> n"
    using Cons.prems(2) by simp_all
  show ?case
  proof (cases "source = Null \<or> source = Undefined")
    case True
    with Cons.IH [OF rest_srcs rest_b Cons.prems(3,4)] show ?thesis by simp
  next
    case False
    have keys: "each_key copy mix True inherited clone h copied target source (for_in h source) \<noteq> OutOfFuel"
      using cf mf mg me sep pl tgt src b Cons.prems(3,4) by (rule each_key_ends)
    show ?thesis
    proof (cases "each_key copy mix True inherited clone h copied target source (for_in h source)")
      case OutOfFuel
      with keys show ?thesis by simp
    next
      case (Raise e)
      with False show ?thesis by simp
    next
      case (Done p)
      obtain h1 c1 where p: "p = (h1, c1)" by (cases p)
      have inv1: "frame_inv h0 T h1"
        using cf mf sep opq tgt src Cons.prems(3) Done [unfolded p] by (rule each_key_frames)
      have "deep \<longrightarrow> mix_grows mix" for deep using mg by simp
      from each_key_grows [OF this Cons.prems(4) Done [unfolded p]]
      have sub1: "set clone \<subseteq> set c1" using Cons.prems(4) by auto
      from Cons.IH [OF rest_srcs rest_b inv1 sub1] Done p False show ?thesis by simp
    qed
  qed
qed

lemma engine_ends:
  assumes sep: "self_contained h0 S" "S \<inter> T = {}" and pl: "all_plain h0 S"
  shows "mix_ends h0 T S n (\<lambda>i h c t s. mixin_core n True i h c t s)"
proof (induction n)
  case 0
  show ?case by (simp add: mix_ends_def)
next
  case (Suc n)
  have opq: "no_opaque h0 S" using pl by (simp add: all_plain_def no_opaque_def)
  from engine_frames [OF sep opq, of n]
  have cf: "copy_frames h0 T S (\<lambda>h a i. copyArray n h a i)"
    and mf: "mix_frames h0 T S (\<lambda>i h c t s. mixin_core n True i h c t s)" by simp_all
  have mg: "mix_grows (\<lambda>i h c t s. mixin_core n True i h c t s)" by (rule mixin_core_grows)
  show ?case
    unfolding mix_ends_def
  proof (intro allI impI)
    fix inherited h c t v
    assume inv: "frame_inv h0 T h" and t: "val_in (owned h0 T) t" and v: "val_in S v"
      and r: "rank S (set c) v < Suc n"
    have srcs: "list_all (val_in S) [v]" using v by simp
    have b: "\<forall>s\<in>set [v]. rank S (set c) s \<le> n" using r by simp
    have "each_source (\<lambda>h a i. copyArray n h a i) (\<lambda>i h c t s. mixin_core n True i h c t s)
            True inherited c h c t [v] \<noteq> OutOfFuel"
      using cf mf mg Suc sep pl t srcs b inv by (rule each_source_ends) simp
    then show "mixin_core (Suc n) True inherited h c t [v] \<noteq> OutOfFuel" by simp
  qed
qed

lemma shallow_keys_end:
  "each_key copy mix False inherited clone h copied target source ks \<noteq> OutOfFuel"
proof (induction ks arbitrary: h copied)
  case Nil
  show ?case by simp
next
  case (Cons k ks)
  have "mixin_key copy mix False inherited clone h copied target source k \<noteq> OutOfFuel"
    by (auto simp: mixin_key_def merged_value_def Let_def split: sum.splits)
  with Cons.IH show ?case by (auto split: outcome.splits)
qed

lemma shallow_sources_end:
  "each_source copy mix False inherited clone h copied target sources \<noteq> OutOfFuel"
proof (induction sources arbitrary: h copied)
  case Nil
  show ?case by simp
next
  case (Cons source sources)
  with shallow_keys_end [of copy mix inherited clone h copied target source "for_in h source"]
  show ?case by (auto split: outcome.splits)
qed

lemma finish_ends: "finish r \<noteq> OutOfFuel \<longleftrightarrow> r \<noteq> OutOfFuel"
  by (auto simp: finish_def split: outcome.splits)

lemma deep_merge_ends:
  assumes sep: "separated h S T" and tgt: "val_in T target" and srcs: "list_all (val_in S) sources"
    and pl: "all_plain h S" and n: "2 * card S + 1 < n"
  shows "mixin_core n True inherited h [] target sources \<noteq> OutOfFuel"
proof -
  from n obtain m where m: "n = Suc m" "2 * card S + 1 \<le> m" by (cases n) auto
  have s: "self_contained h S" "S \<inter> T = {}" and t: "self_contained h T"
    using sep by (simp_all add: separated_def)
  have opq: "no_opaque h S" using pl by (simp add: all_plain_def no_opaque_def)
  have fin: "finite S"
    using s(1) by (intro finite_subset [of S "{..<length h}"]) (auto simp: self_contained_def)
  from engine_frames [OF s opq, of m]
  have cf: "copy_frames h T S (\<lambda>h a i. copyArray m h a i)"
    and mf: "mix_frames h T S (\<lambda>i h c t s. mixin_core m True i h c t s)" by simp_all
  have mg: "mix_grows (\<lambda>i h c t s. mixin_core m True i h c t s)" by (rule mixin_core_grows)
  have me: "mix_ends h T S m (\<lambda>i h c t s. mixin_core m True i h c t s)"
    using s pl by (rule engine_ends)
  have inv: "frame_inv h T h" using t by (rule frame_inv_refl)
  have tgt': "val_in (owned h T) target"
    using tgt by (rule val_in_mono) (simp add: owned_def)
  have bound: "\<forall>x\<in>set sources. rank S (set []) x \<le> m"
  proof
    fix x
    have "card (Ref ` S - set [] - {x}) \<le> card (Ref ` S)"
      using fin by (intro card_mono) auto
    also have "\<dots> \<le> card S" using fin by (rule card_image_le)
    finally have "rank S (set []) x \<le> 2 * card S + 1" by (simp add: rank_def)
    with m(2) show "rank S (set []) x \<le> m" by simp
  qed
  have "each_source (\<lambda>h a i. copyArray m h a i) (\<lambda>i h c t s. mixin_core m True i h c t s)
          True inherited [] h [] target sources \<noteq> OutOfFuel"
    using cf mf mg me s pl tgt' srcs bound inv by (rule each_source_ends) simp
  with m(1) show ?thesis by simp
qed

text \<open>Where the guard works. A call ends when, with a large enough bound on the depth of
  calls, the answer is not \<open>OutOfFuel\<close>: it returns, or it throws. \<open>mixin\<close> ends on every
  input, at depth one. \<open>deepAssign\<close> and \<open>deepMixin\<close> end when the sources' structure \<open>S\<close>
  consists of plain keyed structures, with whatever cycles and self-references, and shares
  nothing with the target's structure \<open>T\<close>: the guard keeps the depth of calls within
  twice the number of source objects, plus two.\<close>

theorem merge_terminates:
  "mixin (Suc m) h1 target1 sources1 \<noteq> OutOfFuel \<and>
   (separated h S T \<and> val_in T target \<and> list_all (val_in S) sources \<and> all_plain h S \<and>
    2 * card S + 1 < n
      \<longrightarrow> deepAssign n h target sources \<noteq> OutOfFuel \<and> deepMixin n h target sources \<noteq> OutOfFuel)"
proof -
  have shallow: "mixin (Suc m) h1 target1 sources1 \<noteq> OutOfFuel"
    using shallow_sources_end by (simp add: mixin_def finish_ends)
  have deep: "deepAssign n h target sources \<noteq> OutOfFuel \<and> deepMixin n h target sources \<noteq> OutOfFuel"
    if "separated h S T" "val_in T target" "list_all (val_in S) sources" "all_plain h S"
      "2 * card S + 1 < n"
    using deep_merge_ends [OF that] by (simp add: deepAssign_def deepMixin_def finish_ends)
  from shallow deep show ?thesis by blast
qed

text \<open>The theorem on the object that refers to itself, \<open>a.self = a\<close>, with the empty
  object 1 as the target: \<open>deepAssign\<close> returns, and the target's \<open>self\<close> is a new empty
  object.\<close>

theorem merge_terminates_witness:
  "separated self_heap {0} {1} \<and> val_in {1} (Ref 1) \<and> list_all (val_in {0}) [Ref 0] \<and>
   all_plain self_heap {0} \<and> 2 * card {0::nat} + 1 < (4::nat) \<and>
   deepAssign 4 self_heap (Ref 1) [Ref 0] \<noteq> OutOfFuel \<and>
   deepMixin 4 self_heap (Ref 1) [Ref 0] \<noteq> OutOfFuel \<and>
   deepAssign 4 self_heap (Ref 1) [Ref 0] =
     Done (self_heap[1 := plain [(Name ''self'', Ref 2)] None] @ [empty_object], Ref 1)"
proof -
  have sep: "separated self_heap {0} {1}"
    by (simp add: separated_def self_contained_def obj_in_iff self_heap_def plain_def empty_object_def)
  have tgt: "val_in {1} (Ref 1)" and srcs: "list_all (val_in {0}) [Ref 0]" by simp_all
  have pl: "all_plain self_heap {0}" by (simp add: all_plain_def self_heap_def plain_def)
  have n: "2 * card {0::nat} + 1 < (4::nat)" by simp
  have run: "deepAssign 4 self_heap (Ref 1) [Ref 0] =
     Done (self_heap[1 := plain [(Name ''self'', Ref 2)] None] @ [empty_object], Ref 1)"
    by (simp add: engine_defs self_heap_def numeral_3_eq_3 eval_nat_numeral)
  from merge_terminates [of _ _ _ _ self_heap "{0}" "{1}" "Ref 1" "[Ref 0]" 4] sep tgt srcs pl n
  have "deepAssign 4 self_heap (Ref 1) [Ref 0] \<noteq> OutOfFuel \<and>
        deepMixin 4 self_heap (Ref 1) [Ref 0] \<noteq> OutOfFuel" by blast
  with sep tgt srcs pl n run show ?thesis by simp
qed

lemma chain_no_proto:
  "a < length h \<Longrightarrow> proto (h ! a) = None \<Longrightarrow> chain h a = [a]"
  by (cases "length h") (simp_all add: chain_def obj_at_def)

lemma copyArray_self_member:
  "0 < length h \<Longrightarrow> h ! 0 = array_of [Ref 0] \<Longrightarrow> copyArray n h (Ref 0) inherited = OutOfFuel"
proof (induction n arbitrary: h)
  case 0
  show ?case by simp
next
  case (Suc n)
  let ?h1 = "h @ [new_array 1]"
  have ch: "chain ?h1 0 = [0]"
    using Suc.prems by (intro chain_no_proto) (simp_all add: nth_append array_of_def)
  have rec: "copyArray n ?h1 (Ref 0) inherited = OutOfFuel"
    using Suc.prems by (intro Suc.IH) (simp_all add: nth_append)
  have at: "obj_at ?h1 0 = Some (array_of [Ref 0])" "obj_at h 0 = Some (array_of [Ref 0])"
    using Suc.prems by (simp_all add: obj_at_def nth_append)
  show ?case
    using rec ch at Suc.prems
    by (simp add: copyArray_body_def alloc_def has_property_def copy_item_def array_of_def Let_def nth_append)
qed

text \<open>Claim C2 (every call terminates, on cyclic sequences as on cyclic objects), at an
  ordered sequence that contains itself. Object 0 is the array \<open>a\<close> with \<open>a[0] = a\<close>, the
  source is object 1, \<open>{x: a}\<close>, and the target is the empty object 2. The guard of \<open>_mixin\<close>
  never sees the items of an array: \<open>copyArray\<close> takes no list of visited sources and
  passes none on, so copying \<open>a\<close> copies its item \<open>a\<close>, and so on. Whatever depth of calls
  is allowed, \<open>deepAssign\<close> needs more: the call does not end.\<close>

theorem cyclic_array_never_returns:
  "\<forall>n. deepAssign n cyclic_array_heap (Ref 2) [Ref 1] = OutOfFuel"
proof
  fix n
  show "deepAssign n cyclic_array_heap (Ref 2) [Ref 1] = OutOfFuel"
  proof (cases n)
    case 0
    then show ?thesis by (simp add: deepAssign_def finish_def)
  next
    case (Suc m)
    have "copyArray m cyclic_array_heap (Ref 0) False = OutOfFuel"
      by (rule copyArray_self_member) (simp_all add: cyclic_array_heap_def)
    then show ?thesis
      using Suc
      by (simp add: engine_defs cyclic_array_heap_def numeral_3_eq_3 del: copyArray.simps)
  qed
qed

end
